theory Spec2Isabelle
  imports Main "HOL-Library.Word" "HOL-Library.Char_ord" "HOL-Library.List_Lexorder"
begin

section \<open>Data model of main.go\<close>

text \<open>
  Go's \<^verbatim>\<open>int\<close> is a 64-bit two's-complement integer on the platforms the tool is
  built for: \<open>+\<close> wraps, comparisons are signed (\<open><s\<close>), \<open>sint\<close> reads the value.
  A Go \<^verbatim>\<open>string\<close> is a byte sequence, as \<open>string\<close> is here. A \<^verbatim>\<open>time.Time\<close> is an
  opaque instant.
\<close>

type_synonym go_int = "64 word"
type_synonym go_time = int

record Issue =
  ID :: go_int
  Title :: string
  Status :: string
  Labels :: "string list"
  CreatedAt :: go_time

text \<open>
  All six regular expressions of \<^verbatim>\<open>defaultLabelPatterns\<close> have the shape
  \<^verbatim>\<open>(?i)^(T1|...|Tn):\<close>; a compiled pattern is represented by its alternatives
  \<open>[T1, ..., Tn]\<close>.
\<close>

type_synonym regexp = "string list"

record LabelPattern =
  Pattern :: regexp
  Label :: string

definition dbFileName :: string where
  "dbFileName = ''.issue_tracker.json''"

definition statusOpen :: string where
  "statusOpen = ''open''"

definition statusClosed :: string where
  "statusClosed = ''closed''"

definition defaultLabelPatterns :: "LabelPattern list" where
  "defaultLabelPatterns =
     [\<lparr>Pattern = [''BUG'', ''FIX'', ''BUGFIX''], Label = ''bug''\<rparr>,
      \<lparr>Pattern = [''FEAT'', ''FEATURE''], Label = ''feature''\<rparr>,
      \<lparr>Pattern = [''DOCS'', ''DOCUMENTATION''], Label = ''documentation''\<rparr>,
      \<lparr>Pattern = [''REFACTOR''], Label = ''refactor''\<rparr>,
      \<lparr>Pattern = [''TEST'', ''TESTS''], Label = ''testing''\<rparr>,
      \<lparr>Pattern = [''CHORE''], Label = ''chore''\<rparr>]"

subsection \<open>Matching \<^verbatim>\<open>(?i)^(T1|...|Tn):\<close>\<close>

text \<open>
  Under \<^verbatim>\<open>(?i)\<close> a literal rune matches every rune of its simple case-folding orbit
  (\<^verbatim>\<open>unicode.SimpleFold\<close>). For an ASCII letter the orbit is the upper-case and the
  lower-case letter; the orbit of K also holds U+212A (bytes E2 84 AA) and the orbit of
  S also holds U+017F (bytes C5 BF). Every other ASCII rune is alone in its orbit.
  \<open>foldOrbit\<close> lists the UTF-8 encodings of the orbit.
\<close>

definition asciiUpper :: "char \<Rightarrow> char" where
  "asciiUpper c =
     (let n = (of_char c :: nat)
      in if 97 \<le> n \<and> n \<le> 122 then char_of (n - 32) else c)"

definition foldOrbit :: "char \<Rightarrow> string list" where
  "foldOrbit c =
     (let u = (of_char (asciiUpper c) :: nat)
      in if 65 \<le> u \<and> u \<le> 90
         then [[char_of u], [char_of (u + 32)]] @
              (if u = 75 then [[char_of (226::nat), char_of (132::nat), char_of (170::nat)]]
               else if u = 83 then [[char_of (197::nat), char_of (191::nat)]]
               else [])
         else [[c]])"

fun stripPrefix :: "string \<Rightarrow> string \<Rightarrow> string option" where
  "stripPrefix [] s = Some s"
| "stripPrefix (p # ps) [] = None"
| "stripPrefix (p # ps) (b # bs) = (if p = b then stripPrefix ps bs else None)"

fun firstSome :: "'a option list \<Rightarrow> 'a option" where
  "firstSome [] = None"
| "firstSome (None # xs) = firstSome xs"
| "firstSome (Some x # xs) = Some x"

definition matchRune :: "char \<Rightarrow> string \<Rightarrow> string option" where
  "matchRune c s = firstSome (map (\<lambda>e. stripPrefix e s) (foldOrbit c))"

fun matchLiteral :: "string \<Rightarrow> string \<Rightarrow> string option" where
  "matchLiteral [] s = Some s"
| "matchLiteral (c # cs) s =
     (case matchRune c s of None \<Rightarrow> None | Some r \<Rightarrow> matchLiteral cs r)"

definition MatchString :: "regexp \<Rightarrow> string \<Rightarrow> bool" where
  "MatchString re s = list_ex (\<lambda>tok. matchLiteral (tok @ '':'') s \<noteq> None) re"

subsection \<open>autoLabel\<close>

text \<open>
  \<^verbatim>\<open>labelSet\<close> is a \<^verbatim>\<open>map[string]bool\<close>: a missing key reads as \<open>False\<close>.
  \<^verbatim>\<open>sort.Strings\<close> orders byte-wise lexicographically, which is the order of
  \<open>string\<close> here.
\<close>

fun autoLabel_seen :: "string list \<Rightarrow> (string \<Rightarrow> bool) \<Rightarrow> (string \<Rightarrow> bool)" where
  "autoLabel_seen [] labelSet = labelSet"
| "autoLabel_seen (l # ls) labelSet = autoLabel_seen ls (labelSet(l := True))"

fun autoLabel_rules ::
  "LabelPattern list \<Rightarrow> string \<Rightarrow> string list \<Rightarrow> (string \<Rightarrow> bool) \<Rightarrow> string list" where
  "autoLabel_rules [] title labels labelSet = labels"
| "autoLabel_rules (lp # lps) title labels labelSet =
     (if MatchString (Pattern lp) title \<and> \<not> labelSet (Label lp)
      then autoLabel_rules lps title (labels @ [Label lp]) (labelSet(Label lp := True))
      else autoLabel_rules lps title labels labelSet)"

definition autoLabel :: "Issue \<Rightarrow> Issue" where
  "autoLabel issue =
     issue\<lparr>Labels :=
       sort (autoLabel_rules defaultLabelPatterns (Title issue) (Labels issue)
               (autoLabel_seen (Labels issue) (\<lambda>l. False)))\<rparr>"

section \<open>The environment of one invocation\<close>

text \<open>
  What the program reads and writes outside its own memory is one record.
  \<^item> \<open>repoRoot\<close>: the result of \<^verbatim>\<open>getRepoRoot\<close> (\<open>None\<close>: no \<^verbatim>\<open>.git\<close> above the
    working directory).
  \<^item> \<open>dbFile\<close>: the database file at \<^verbatim>\<open>getDBPath\<close>. \<open>Stored xs\<close> is a file that
    holds the JSON text which \<^verbatim>\<open>json.MarshalIndent\<close> writes for \<open>xs\<close>; the text itself is
    not modelled.
  \<^item> \<open>jsonString\<close>: what a string becomes on its way through the JSON text.
    \<^verbatim>\<open>encoding/json\<close> writes every byte that is not part of a valid UTF-8 sequence as
    U+FFFD, so a string read back is the string written with those bytes replaced; a
    string of valid UTF-8 comes back as it was. The function is the library's and is
    taken as given.
  \<^item> \<open>writeFails\<close>: \<open>None\<close> when \<^verbatim>\<open>ioutil.WriteFile\<close> succeeds, \<open>Some d\<close> when it
    returns an error and leaves the file as \<open>d\<close>.
  \<^item> \<open>writes\<close>: the trace of the collections whose JSON text is handed to
    \<^verbatim>\<open>ioutil.WriteFile\<close>.
  \<^item> \<open>clock\<close>: \<^verbatim>\<open>time.Now()\<close>.
  \<^item> \<open>ghRepoView\<close>, \<open>ghAuthToken\<close>: the standard output of the two \<^verbatim>\<open>gh\<close> commands
    (\<open>None\<close>: the command returned an error).
  \<^item> \<open>getenv\<close>: \<^verbatim>\<open>os.Getenv\<close> (the empty string for an unset variable).
  \<^item> \<open>TrimSpace\<close>: \<^verbatim>\<open>strings.TrimSpace\<close> of the standard library, taken as given.
  \<^item> \<open>createOk\<close>, \<open>remoteCalls\<close>: the remote service. \<open>remoteCalls\<close> is the trace of
    \<^verbatim>\<open>client.Issues.Create\<close> calls; \<open>createOk\<close> tells from the earlier calls and
    the present one whether it returns without error.
\<close>

text \<open>
  Every failure of the program is a \<^verbatim>\<open>log.Fatal\<close>, which ends the process; a command
  returns the failure as a value instead. The constructors stand for the messages:
  \<open>NotARepository\<close> for \<^verbatim>\<open>could not find repository root\<close>, \<open>StoreUnreadable\<close> for
  \<^verbatim>\<open>could not read database file\<close>, \<open>StoreCorrupt\<close> for \<^verbatim>\<open>could not parse database file\<close>,
  \<open>StoreUnwritable\<close> for the error of \<^verbatim>\<open>ioutil.WriteFile\<close>, \<open>EmptyTitle\<close> for
  \<^verbatim>\<open>Issue title cannot be empty\<close>, \<open>InvalidIssueID\<close> for \<^verbatim>\<open>Invalid ID format\<close>,
  \<open>IssueNotFound\<close> for \<^verbatim>\<open>Issue with ID #%d not found\<close>, \<open>UnsupportedFormat\<close> for
  \<^verbatim>\<open>Unknown format '%s'\<close>, and \<open>CredentialsUnavailable\<close> for the request to
  authenticate \<^verbatim>\<open>gh\<close> or to set the three environment variables.
\<close>

datatype error =
    NotARepository
  | StoreUnreadable
  | StoreCorrupt
  | StoreUnwritable
  | EmptyTitle
  | InvalidIssueID
  | IssueNotFound go_int
  | UnsupportedFormat string
  | CredentialsUnavailable

datatype db_file = Missing | Unreadable | Corrupt | Stored "Issue list"

record CreateCall =
  callToken :: string
  callOwner :: string
  callRepo :: string
  callTitle :: string
  callLabels :: "string list"

record world =
  repoRoot :: "string option"
  dbFile :: db_file
  writeFails :: "db_file option"
  writes :: "Issue list list"
  clock :: go_time
  ghRepoView :: "string option"
  ghAuthToken :: "string option"
  getenv :: "string \<Rightarrow> string"
  TrimSpace :: "string \<Rightarrow> string"
  jsonString :: "string \<Rightarrow> string"
  createOk :: "CreateCall list \<Rightarrow> CreateCall \<Rightarrow> bool"
  remoteCalls :: "CreateCall list"

subsection \<open>loadIssues and saveIssues\<close>

text \<open>
  \<^verbatim>\<open>json.MarshalIndent\<close> does not fail on a collection of issues that was loaded or
  built by \<^verbatim>\<open>addIssue\<close>, so \<open>saveIssues\<close> fails only where the path or the write does.
  \<open>saveIssues\<close> leaves the file holding the JSON text of the collection it is given;
  \<open>loadIssues\<close> decodes that text, which gives every issue back with its strings
  (title, status, labels) passed through \<open>jsonString\<close>, and its id and instant as they
  were.
\<close>

definition jsonIssue :: "world \<Rightarrow> Issue \<Rightarrow> Issue" where
  "jsonIssue w issue =
     issue\<lparr>Title := jsonString w (Title issue), Status := jsonString w (Status issue),
           Labels := map (jsonString w) (Labels issue)\<rparr>"

definition getDBPath :: "world \<Rightarrow> error + string" where
  "getDBPath w =
     (case repoRoot w of
        None \<Rightarrow> Inl NotARepository
      | Some root \<Rightarrow> Inr (root @ ''/'' @ dbFileName))"

definition loadIssues :: "world \<Rightarrow> error + Issue list" where
  "loadIssues w =
     (case getDBPath w of
        Inl e \<Rightarrow> Inl e
      | Inr path \<Rightarrow>
          (case dbFile w of
             Missing \<Rightarrow> Inr []
           | Unreadable \<Rightarrow> Inl StoreUnreadable
           | Corrupt \<Rightarrow> Inl StoreCorrupt
           | Stored issues \<Rightarrow> Inr (map (jsonIssue w) issues)))"

definition saveIssues :: "Issue list \<Rightarrow> world \<Rightarrow> (error + unit) \<times> world" where
  "saveIssues issues w =
     (case getDBPath w of
        Inl e \<Rightarrow> (Inl e, w)
      | Inr path \<Rightarrow>
          (case writeFails w of
             None \<Rightarrow> (Inr (), w\<lparr>dbFile := Stored issues, writes := writes w @ [issues]\<rparr>)
           | Some d \<Rightarrow> (Inl StoreUnwritable, w\<lparr>dbFile := d, writes := writes w @ [issues]\<rparr>)))"

section \<open>Commands\<close>

subsection \<open>addIssue\<close>

fun maxID_loop :: "go_int \<Rightarrow> Issue list \<Rightarrow> go_int" where
  "maxID_loop maxID [] = maxID"
| "maxID_loop maxID (issue # issues) =
     maxID_loop (if maxID <s ID issue then ID issue else maxID) issues"

definition addIssue :: "string \<Rightarrow> world \<Rightarrow> (error + Issue) \<times> world" where
  "addIssue title w =
     (if title = [] then (Inl EmptyTitle, w)
      else case loadIssues w of
        Inl e \<Rightarrow> (Inl e, w)
      | Inr issues \<Rightarrow>
          (let maxID = maxID_loop 0 issues;
               newIssue = autoLabel
                 \<lparr>ID = maxID + 1, Title = title, Status = statusOpen,
                  Labels = [], CreatedAt = clock w\<rparr>
           in case saveIssues (issues @ [newIssue]) w of
                (Inl e, w') \<Rightarrow> (Inl e, w')
              | (Inr u, w') \<Rightarrow> (Inr newIssue, w')))"

subsection \<open>listIssues\<close>

text \<open>
  The inner loop over the labels sets \<^verbatim>\<open>found\<close>; the outer loop prints one line per
  retained issue. \<open>listIssues_loop\<close> returns the issues that reach the
  \<^verbatim>\<open>fmt.Printf\<close>, in the order they are printed; a printed line carries the
  arguments of that call.
\<close>

fun labelFound :: "string \<Rightarrow> string list \<Rightarrow> bool" where
  "labelFound filterLabel [] = False"
| "labelFound filterLabel (label # labels) =
     (if label = filterLabel then True else labelFound filterLabel labels)"

fun listIssues_loop :: "string \<Rightarrow> bool \<Rightarrow> Issue list \<Rightarrow> Issue list" where
  "listIssues_loop filterLabel showClosed [] = []"
| "listIssues_loop filterLabel showClosed (issue # issues) =
     (if \<not> showClosed \<and> Status issue = statusClosed
      then listIssues_loop filterLabel showClosed issues
      else if filterLabel \<noteq> [] \<and> \<not> labelFound filterLabel (Labels issue)
      then listIssues_loop filterLabel showClosed issues
      else issue # listIssues_loop filterLabel showClosed issues)"

datatype statusMarker = CheckMark | WhiteCircle

datatype list_line = IssueLine statusMarker go_int string "string list" | NoIssuesFound

definition issueLine :: "Issue \<Rightarrow> list_line" where
  "issueLine issue =
     IssueLine (if Status issue = statusOpen then WhiteCircle else CheckMark)
       (ID issue) (Title issue) (Labels issue)"

definition listIssues :: "string \<Rightarrow> bool \<Rightarrow> world \<Rightarrow> (error + list_line list) \<times> world" where
  "listIssues filterLabel showClosed w =
     (case loadIssues w of
        Inl e \<Rightarrow> (Inl e, w)
      | Inr issues \<Rightarrow>
          (let shown = listIssues_loop filterLabel showClosed issues;
               count = length shown
           in (Inr (map issueLine shown @ (if count = 0 then [NoIssuesFound] else [])), w)))"

subsection \<open>closeIssue\<close>

text \<open>
  \<^verbatim>\<open>strconv.Atoi\<close>: an optional sign, then one or more decimal digits, and a value
  that fits 64 bits; anything else is an error.
\<close>

definition isDigit :: "char \<Rightarrow> bool" where
  "isDigit c = (48 \<le> (of_char c :: nat) \<and> (of_char c :: nat) \<le> 57)"

fun digitsValue :: "int \<Rightarrow> string \<Rightarrow> int" where
  "digitsValue n [] = n"
| "digitsValue n (c # cs) = digitsValue (n * 10 + (of_char c - 48)) cs"

definition Atoi :: "string \<Rightarrow> go_int option" where
  "Atoi s =
     (let neg = (s \<noteq> [] \<and> hd s = CHR ''-'');
          ds = (if s \<noteq> [] \<and> (hd s = CHR ''-'' \<or> hd s = CHR ''+'') then tl s else s);
          n = digitsValue 0 ds
      in if ds = [] \<or> \<not> list_all isDigit ds then None
         else if neg then (if n \<le> 2 ^ 63 then Some (word_of_int (- n)) else None)
         else (if n < 2 ^ 63 then Some (word_of_int n) else None))"

datatype close_scan = AlreadyClosed | Found "Issue list" | NotFound

fun closeIssue_loop :: "go_int \<Rightarrow> Issue list \<Rightarrow> close_scan" where
  "closeIssue_loop idv [] = NotFound"
| "closeIssue_loop idv (issue # issues) =
     (if ID issue = idv
      then (if Status issue = statusClosed then AlreadyClosed
            else Found (issue\<lparr>Status := statusClosed\<rparr> # issues))
      else (case closeIssue_loop idv issues of
              Found issues' \<Rightarrow> Found (issue # issues')
            | r \<Rightarrow> r))"

datatype close_report = ReportAlreadyClosed go_int | ReportClosed go_int

definition closeIssue :: "string \<Rightarrow> world \<Rightarrow> (error + close_report) \<times> world" where
  "closeIssue idStr w =
     (case Atoi idStr of
        None \<Rightarrow> (Inl InvalidIssueID, w)
      | Some idv \<Rightarrow>
          (case loadIssues w of
             Inl e \<Rightarrow> (Inl e, w)
           | Inr issues \<Rightarrow>
               (case closeIssue_loop idv issues of
                  AlreadyClosed \<Rightarrow> (Inr (ReportAlreadyClosed idv), w)
                | NotFound \<Rightarrow> (Inl (IssueNotFound idv), w)
                | Found issues' \<Rightarrow>
                    (case saveIssues issues' w of
                       (Inl e, w') \<Rightarrow> (Inl e, w')
                     | (Inr u, w') \<Rightarrow> (Inr (ReportClosed idv), w')))))"

subsection \<open>publishIssues\<close>

text \<open>
  The rendering (the Markdown template, \<^verbatim>\<open>json.MarshalIndent\<close>) is the libraries';
  the output is the renderer chosen and the collection given to it.
\<close>

datatype export = MarkdownDoc "Issue list" | JsonDoc "Issue list"

definition publishIssues :: "string \<Rightarrow> world \<Rightarrow> (error + export) \<times> world" where
  "publishIssues format w =
     (case loadIssues w of
        Inl e \<Rightarrow> (Inl e, w)
      | Inr issues \<Rightarrow>
          (if format = ''markdown'' then (Inr (MarkdownDoc issues), w)
           else if format = ''json'' then (Inr (JsonDoc issues), w)
           else (Inl (UnsupportedFormat format), w)))"

subsection \<open>pushToGithub\<close>

fun Split :: "string \<Rightarrow> char \<Rightarrow> string list" where
  "Split [] sep = [[]]"
| "Split (c # cs) sep =
     (if c = sep then [] # Split cs sep
      else (case Split cs sep of
              [] \<Rightarrow> [[c]]
            | part # parts \<Rightarrow> (c # part) # parts))"

datatype tier = GhCli | Environment

record credentials =
  credTier :: tier
  credToken :: string
  credOwner :: string
  credRepo :: string

definition ghOwnerRepo :: "world \<Rightarrow> string \<times> string" where
  "ghOwnerRepo w =
     (case ghRepoView w of
        None \<Rightarrow> ([], [])
      | Some ghRepoOutput \<Rightarrow>
          (case Split (TrimSpace w ghRepoOutput) (CHR ''/'') of
             [owner, repo] \<Rightarrow> (owner, repo)
           | _ \<Rightarrow> ([], [])))"

definition ghToken :: "world \<Rightarrow> string" where
  "ghToken w =
     (case ghAuthToken w of
        None \<Rightarrow> []
      | Some ghTokenOutput \<Rightarrow> TrimSpace w ghTokenOutput)"

definition resolveCredentials :: "world \<Rightarrow> error + credentials" where
  "resolveCredentials w =
     (let (owner, repo) = ghOwnerRepo w;
          token = ghToken w
      in if owner \<noteq> [] \<and> repo \<noteq> [] \<and> token \<noteq> []
         then Inr \<lparr>credTier = GhCli, credToken = token, credOwner = owner, credRepo = repo\<rparr>
         else (let token = getenv w ''GITHUB_TOKEN'';
                   owner = getenv w ''GITHUB_OWNER'';
                   repo = getenv w ''GITHUB_REPO''
               in if token = [] \<or> owner = [] \<or> repo = []
                  then Inl CredentialsUnavailable
                  else Inr \<lparr>credTier = Environment, credToken = token,
                            credOwner = owner, credRepo = repo\<rparr>))"

datatype push_event = CreateError go_int | CreateSuccess string

definition createCall :: "credentials \<Rightarrow> Issue \<Rightarrow> CreateCall" where
  "createCall c issue =
     \<lparr>callToken = credToken c, callOwner = credOwner c, callRepo = credRepo c,
      callTitle = Title issue, callLabels = Labels issue\<rparr>"

fun push_loop :: "credentials \<Rightarrow> Issue list \<Rightarrow> world \<Rightarrow> push_event list \<times> world" where
  "push_loop c [] w = ([], w)"
| "push_loop c (issue # issues) w =
     (if Status issue = statusOpen
      then (let call = createCall c issue;
                ok = createOk w (remoteCalls w) call;
                w1 = w\<lparr>remoteCalls := remoteCalls w @ [call]\<rparr>;
                (events, w2) = push_loop c issues w1
            in ((if ok then CreateSuccess (Title issue) else CreateError (ID issue)) # events,
                w2))
      else push_loop c issues w)"

fun isSuccess :: "push_event \<Rightarrow> bool" where
  "isSuccess (CreateSuccess title) = True"
| "isSuccess (CreateError idv) = False"

record push_report =
  pushEvents :: "push_event list"
  pushCount :: nat

definition pushToGithub :: "world \<Rightarrow> (error + push_report) \<times> world" where
  "pushToGithub w =
     (case resolveCredentials w of
        Inl e \<Rightarrow> (Inl e, w)
      | Inr c \<Rightarrow>
          (case loadIssues w of
             Inl e \<Rightarrow> (Inl e, w)
           | Inr localIssues \<Rightarrow>
               (let (events, w1) = push_loop c localIssues w;
                    count = length (filter isSuccess events)
                in case saveIssues [] w1 of
                     (Inl e, w2) \<Rightarrow> (Inl e, w2)
                   | (Inr u, w2) \<Rightarrow> (Inr \<lparr>pushEvents = events, pushCount = count\<rparr>, w2))))"

section \<open>Notions used to state the properties\<close>

definition isUpperLetter :: "char \<Rightarrow> bool" where
  "isUpperLetter c = (65 \<le> (of_char c :: nat) \<and> (of_char c :: nat) \<le> 90)"

definition isASCII :: "string \<Rightarrow> bool" where
  "isASCII s = list_all (\<lambda>b. (of_char b :: nat) < 128) s"

definition startsWithToken :: "string \<Rightarrow> string \<Rightarrow> bool" where
  "startsWithToken tok title =
     (length tok < length title \<and> map asciiUpper (take (length tok) title) = tok \<and>
      title ! length tok = CHR '':'')"

text \<open>
  \<open>caseVariant tok pre\<close>: the text \<open>pre\<close> is the token \<open>tok\<close> with every letter replaced
  by a member of its case-folding orbit, that is by the upper-case or the lower-case
  letter, or, for S and K only, by U+017F or U+212A.
\<close>

definition caseVariant :: "string \<Rightarrow> string \<Rightarrow> bool" where
  "caseVariant tok pre =
     (\<exists>vs. pre = concat vs \<and> list_all2 (\<lambda>c v. v \<in> set (foldOrbit c)) tok vs)"

text \<open>
  The invariants of a stored collection: the ids are distinct, every status is
  \<^verbatim>\<open>open\<close> or \<^verbatim>\<open>closed\<close>, every label list is duplicate-free and sorted ascending.
  \<open>writesValid w w'\<close>: the trace of \<open>w'\<close> extends that of \<open>w\<close>, and every collection
  added to it satisfies the invariants.
  \<open>newIssue\<close> is the value of the local variable \<^verbatim>\<open>newIssue\<close> of \<^verbatim>\<open>addIssue\<close> after
  \<^verbatim>\<open>autoLabel\<close>.
\<close>

definition storeInvariant :: "Issue list \<Rightarrow> bool" where
  "storeInvariant issues =
     (distinct (map ID issues) \<and>
      list_all (\<lambda>i. Status i = statusOpen \<or> Status i = statusClosed) issues \<and>
      list_all (\<lambda>i. distinct (Labels i) \<and> sorted (Labels i)) issues)"

definition writesValid :: "world \<Rightarrow> world \<Rightarrow> bool" where
  "writesValid w w' =
     (take (length (writes w)) (writes w') = writes w \<and>
      list_all storeInvariant (drop (length (writes w)) (writes w')))"

definition newIssue :: "string \<Rightarrow> Issue list \<Rightarrow> world \<Rightarrow> Issue" where
  "newIssue title issues w =
     autoLabel \<lparr>ID = maxID_loop 0 issues + 1, Title = title, Status = statusOpen,
                Labels = [], CreatedAt = clock w\<rparr>"

subsection \<open>A concrete environment\<close>

text \<open>
  A repository with three stored issues, a \<^verbatim>\<open>gh\<close> that answers both commands with a
  trailing newline, no environment variables, and a remote service that refuses the
  issue titled \<^verbatim>\<open>write docs\<close>. \<open>trimASCII\<close> removes ASCII white space at both ends,
  as \<^verbatim>\<open>strings.TrimSpace\<close> does on ASCII text. All strings of the example are ASCII,
  which the JSON text gives back as they are.
\<close>

definition isSpaceByte :: "char \<Rightarrow> bool" where
  "isSpaceByte c = ((of_char c :: nat) \<in> {9, 10, 11, 12, 13, 32})"

definition trimASCII :: "string \<Rightarrow> string" where
  "trimASCII s = rev (dropWhile isSpaceByte (rev (dropWhile isSpaceByte s)))"

definition exampleStore :: "Issue list" where
  "exampleStore =
     [\<lparr>ID = 1, Title = ''BUG: crash on save'', Status = ''open'', Labels = [''bug''],
       CreatedAt = 1700000000\<rparr>,
      \<lparr>ID = 2, Title = ''FEAT: dark mode'', Status = ''closed'', Labels = [''feature''],
       CreatedAt = 1700000100\<rparr>,
      \<lparr>ID = 4, Title = ''write docs'', Status = ''open'', Labels = [],
       CreatedAt = 1700000200\<rparr>]"

definition exampleWorld :: world where
  "exampleWorld =
     \<lparr>repoRoot = Some ''/home/dev/project'', dbFile = Stored exampleStore,
      writeFails = None, writes = [], clock = 1700000300,
      ghRepoView = Some (''octocat/hello'' @ [CHR 0x0A]),
      ghAuthToken = Some (''gho_secret'' @ [CHR 0x0A]),
      getenv = (\<lambda>name. []), TrimSpace = trimASCII, jsonString = (\<lambda>s. s),
      createOk = (\<lambda>earlier call. callTitle call \<noteq> ''write docs''),
      remoteCalls = []\<rparr>"

text \<open>
  A store that holds the largest and the smallest id of a 64-bit integer.
\<close>

definition wrapStore :: "Issue list" where
  "wrapStore =
     [\<lparr>ID = 9223372036854775807, Title = ''last'', Status = ''open'', Labels = [],
       CreatedAt = 1700000000\<rparr>,
      \<lparr>ID = - 9223372036854775808, Title = ''first'', Status = ''closed'', Labels = [],
       CreatedAt = 1700000100\<rparr>]"

definition exampleCredentials :: credentials where
  "exampleCredentials =
     \<lparr>credTier = GhCli, credToken = ''gho_secret'', credOwner = ''octocat'',
      credRepo = ''hello''\<rparr>"

section \<open>The auto-labeler\<close>

lemma char_eq_char_of: "(b = char_of (n::nat)) = ((of_char b :: nat) = n mod 256)"
proof
  assume "b = char_of n" then show "(of_char b :: nat) = n mod 256" by simp
next
  assume "(of_char b :: nat) = n mod 256"
  then have "char_of (of_char b :: nat) = char_of (n mod 256)" by simp
  then show "b = char_of n" by simp
qed

lemma char_of_eq_char: "(char_of (n::nat) = b) = ((of_char b :: nat) = n mod 256)"
  using char_eq_char_of [of b n] by auto

lemma asciiUpper_upper: "isUpperLetter u \<Longrightarrow> asciiUpper u = u"
  by (simp add: asciiUpper_def isUpperLetter_def)

lemma asciiUpper_eq_upper:
  "isUpperLetter u \<Longrightarrow>
   (asciiUpper b = u) = ((of_char b :: nat) = of_char u \<or> (of_char b :: nat) = of_char u + 32)"
  unfolding asciiUpper_def isUpperLetter_def Let_def
  by (auto simp: char_of_eq_char)

lemma stripPrefix_single: "stripPrefix [p] (b # s) = (if p = b then Some s else None)"
  by simp

lemma matchRune_Nil: "matchRune c [] = None"
  by (simp add: matchRune_def foldOrbit_def Let_def)

lemma matchRune_upper_variant:
  assumes "isUpperLetter u" and "asciiUpper b = u"
  shows "matchRune u (b # s) = Some s"
proof -
  have "(of_char b :: nat) = of_char u \<or> (of_char b :: nat) = of_char u + 32"
    using assms asciiUpper_eq_upper by blast
  then show ?thesis
    using assms(1)
    unfolding matchRune_def foldOrbit_def Let_def isUpperLetter_def
    by (auto simp: asciiUpper_upper [OF assms(1)] char_of_eq_char)
qed

lemma matchRune_upper_ascii:
  assumes "isUpperLetter u" and "(of_char b :: nat) < 128"
  shows "matchRune u (b # s) = (if asciiUpper b = u then Some s else None)"
proof (cases "asciiUpper b = u")
  case True
  then show ?thesis using matchRune_upper_variant [OF assms(1)] by simp
next
  case False
  then have ne: "(of_char b :: nat) \<noteq> of_char u" "(of_char b :: nat) \<noteq> of_char u + 32"
    using asciiUpper_eq_upper [OF assms(1), of b] by auto
  show ?thesis
    using assms ne False
    unfolding matchRune_def foldOrbit_def Let_def isUpperLetter_def
    by (auto simp: asciiUpper_upper [OF assms(1)] char_of_eq_char)
qed

lemma matchRune_colon: "matchRune (CHR '':'') (b # s) = (if b = CHR '':'' then Some s else None)"
  by (auto simp: matchRune_def foldOrbit_def asciiUpper_def Let_def)

lemma matchLiteral_variant:
  "list_all isUpperLetter tok \<Longrightarrow> map asciiUpper pre = tok \<Longrightarrow>
   matchLiteral (tok @ cs) (pre @ s) = matchLiteral cs s"
proof (induction tok arbitrary: pre)
  case Nil
  then show ?case by simp
next
  case (Cons u tok)
  then obtain b pre' where pre: "pre = b # pre'" "asciiUpper b = u" "map asciiUpper pre' = tok"
    by auto
  have "matchRune u (b # pre' @ s) = Some (pre' @ s)"
    using Cons.prems(1) pre(2) by (simp add: matchRune_upper_variant)
  then show ?case using Cons pre by simp
qed

lemma matchLiteral_ascii:
  "list_all isUpperLetter tok \<Longrightarrow> isASCII s \<Longrightarrow>
   matchLiteral (tok @ '':'') s =
     (if length tok < length s \<and> map asciiUpper (take (length tok) s) = tok \<and>
         s ! length tok = CHR '':''
      then Some (drop (Suc (length tok)) s) else None)"
proof (induction tok arbitrary: s)
  case Nil
  then show ?case by (cases s) (auto simp: matchRune_Nil matchRune_colon)
next
  case (Cons u tok)
  show ?case
  proof (cases s)
    case Nil
    then show ?thesis by (simp add: matchRune_Nil)
  next
    case (Cons b s')
    have b: "(of_char b :: nat) < 128" and s': "isASCII s'"
      using Cons.prems(2) Cons by (auto simp: isASCII_def)
    have u: "isUpperLetter u" and tok: "list_all isUpperLetter tok"
      using Cons.prems(1) by auto
    show ?thesis
      using Cons.IH [OF tok s'] Cons
      by (auto simp: matchRune_upper_ascii [OF u b])
  qed
qed

lemma MatchString_variant:
  "tok \<in> set re \<Longrightarrow> list_all isUpperLetter tok \<Longrightarrow> map asciiUpper pre = tok \<Longrightarrow>
   MatchString re (pre @ '':'' @ rest)"
proof -
  assume a: "tok \<in> set re" "list_all isUpperLetter tok" "map asciiUpper pre = tok"
  have "matchLiteral (tok @ '':'') (pre @ '':'' @ rest) = matchLiteral '':'' ('':'' @ rest)"
    by (rule matchLiteral_variant [OF a(2) a(3)])
  also have "\<dots> = Some rest" by (simp add: matchRune_colon)
  finally show ?thesis using a(1) by (auto simp: MatchString_def list_ex_iff)
qed

lemma MatchString_ascii:
  "list_all (list_all isUpperLetter) re \<Longrightarrow> isASCII s \<Longrightarrow>
   MatchString re s =
     (\<exists>tok \<in> set re. length tok < length s \<and> map asciiUpper (take (length tok) s) = tok \<and>
         s ! length tok = CHR '':'')"
  by (auto simp: MatchString_def list_ex_iff list_all_iff matchLiteral_ascii split: if_splits)

lemma defaultLabelPatterns_upper:
  "lp \<in> set defaultLabelPatterns \<Longrightarrow> list_all (list_all isUpperLetter) (Pattern lp)"
  by (auto simp: defaultLabelPatterns_def isUpperLetter_def)

lemma autoLabel_seen_iff: "autoLabel_seen ls m l = (m l \<or> l \<in> set ls)"
  by (induction ls arbitrary: m) auto

lemma autoLabel_rules_set:
  "(\<And>l. m l = (l \<in> set ls)) \<Longrightarrow>
   set (autoLabel_rules lps t ls m) =
     set ls \<union> {Label lp | lp. lp \<in> set lps \<and> MatchString (Pattern lp) t}"
proof (induction lps arbitrary: ls m)
  case Nil
  then show ?case by simp
next
  case (Cons lp lps)
  show ?case
  proof (cases "MatchString (Pattern lp) t \<and> \<not> m (Label lp)")
    case True
    have inv: "\<And>l. (m(Label lp := True)) l = (l \<in> set (ls @ [Label lp]))"
      using Cons.prems by auto
    have step: "autoLabel_rules (lp # lps) t ls m =
          autoLabel_rules lps t (ls @ [Label lp]) (m(Label lp := True))"
      using True by simp
    have "set (autoLabel_rules (lp # lps) t ls m) =
          set (ls @ [Label lp]) \<union> {Label lp | lp. lp \<in> set lps \<and> MatchString (Pattern lp) t}"
      unfolding step by (rule Cons.IH [OF inv])
    also have "\<dots> = set ls \<union>
          {Label lp' | lp'. lp' \<in> set (lp # lps) \<and> MatchString (Pattern lp') t}"
      using True by auto
    finally show ?thesis .
  next
    case False
    then show ?thesis using Cons.IH [OF Cons.prems] Cons.prems by auto
  qed
qed

lemma autoLabel_rules_distinct:
  "(\<And>l. m l = (l \<in> set ls)) \<Longrightarrow> distinct ls \<Longrightarrow> distinct (autoLabel_rules lps t ls m)"
proof (induction lps arbitrary: ls m)
  case Nil
  then show ?case by simp
next
  case (Cons lp lps)
  show ?case
  proof (cases "MatchString (Pattern lp) t \<and> \<not> m (Label lp)")
    case True
    have inv: "\<And>l. (m(Label lp := True)) l = (l \<in> set (ls @ [Label lp]))"
      using Cons.prems by auto
    have d: "distinct (ls @ [Label lp])" using True Cons.prems by auto
    have "autoLabel_rules (lp # lps) t ls m =
          autoLabel_rules lps t (ls @ [Label lp]) (m(Label lp := True))"
      using True by simp
    then show ?thesis using Cons.IH [OF inv d] by (simp only:)
  next
    case False
    then show ?thesis using Cons.IH [OF Cons.prems] by auto
  qed
qed

lemma autoLabel_rules_fixed:
  "(\<And>l. m l = (l \<in> set ls)) \<Longrightarrow>
   (\<And>lp. lp \<in> set lps \<Longrightarrow> MatchString (Pattern lp) t \<Longrightarrow> Label lp \<in> set ls) \<Longrightarrow>
   autoLabel_rules lps t ls m = ls"
  by (induction lps arbitrary: ls m) auto

lemma autoLabel_rules_extends:
  "\<exists>new. autoLabel_rules lps t ls m = ls @ new"
proof (induction lps arbitrary: ls m)
  case Nil
  then show ?case by simp
next
  case (Cons lp lps)
  show ?case
  proof (cases "MatchString (Pattern lp) t \<and> \<not> m (Label lp)")
    case True
    obtain new where
      "autoLabel_rules lps t (ls @ [Label lp]) (m(Label lp := True)) = (ls @ [Label lp]) @ new"
      using Cons.IH by blast
    then have "autoLabel_rules (lp # lps) t ls m = ls @ (Label lp # new)"
      using True by simp
    then show ?thesis by blast
  next
    case False
    then show ?thesis using Cons.IH [of ls m] by auto
  qed
qed

lemma autoLabel_Title: "Title (autoLabel issue) = Title issue"
  by (simp add: autoLabel_def)

lemma autoLabel_set:
  "set (Labels (autoLabel issue)) =
     set (Labels issue) \<union>
     {Label lp | lp. lp \<in> set defaultLabelPatterns \<and> MatchString (Pattern lp) (Title issue)}"
  by (simp add: autoLabel_def autoLabel_rules_set autoLabel_seen_iff)

lemma autoLabel_sorted: "sorted (Labels (autoLabel issue))"
  by (simp add: autoLabel_def)

lemma autoLabel_distinct: "distinct (Labels issue) \<Longrightarrow> distinct (Labels (autoLabel issue))"
  by (simp add: autoLabel_def autoLabel_rules_distinct autoLabel_seen_iff)

lemma autoLabel_idem: "autoLabel (autoLabel issue) = autoLabel issue"
proof -
  let ?L = "Labels (autoLabel issue)"
  have inv: "\<And>l. autoLabel_seen ?L (\<lambda>l. False) l = (l \<in> set ?L)"
    by (simp add: autoLabel_seen_iff)
  have cov: "\<And>lp. lp \<in> set defaultLabelPatterns \<Longrightarrow>
      MatchString (Pattern lp) (Title (autoLabel issue)) \<Longrightarrow> Label lp \<in> set ?L"
    using autoLabel_set [of issue] by (auto simp: autoLabel_Title)
  have "autoLabel_rules defaultLabelPatterns (Title (autoLabel issue)) ?L
          (autoLabel_seen ?L (\<lambda>l. False)) = ?L"
    by (rule autoLabel_rules_fixed [OF inv cov])
  moreover have "sort ?L = ?L"
    using autoLabel_sorted by (simp add: sorted_sort_id)
  ultimately have "Labels (autoLabel (autoLabel issue)) = ?L"
    by (simp add: autoLabel_def [of "autoLabel issue"])
  then show ?thesis
    by (simp add: autoLabel_def [of "autoLabel issue"])
qed

lemma foldOrbit_cases:
  assumes "v \<in> set (foldOrbit c)"
  obtains (single) "v = [c]" "\<not> (65 \<le> (of_char (asciiUpper c) :: nat) \<and> (of_char (asciiUpper c) :: nat) \<le> 90)"
    | (upper) "v = [char_of (of_char (asciiUpper c) :: nat)]"
        "65 \<le> (of_char (asciiUpper c) :: nat)" "(of_char (asciiUpper c) :: nat) \<le> 90"
    | (lower) "v = [char_of ((of_char (asciiUpper c) :: nat) + 32)]"
        "65 \<le> (of_char (asciiUpper c) :: nat)" "(of_char (asciiUpper c) :: nat) \<le> 90"
    | (kelvin) "v = [char_of (226::nat), char_of (132::nat), char_of (170::nat)]"
        "65 \<le> (of_char (asciiUpper c) :: nat)" "(of_char (asciiUpper c) :: nat) \<le> 90"
    | (longs) "v = [char_of (197::nat), char_of (191::nat)]"
        "65 \<le> (of_char (asciiUpper c) :: nat)" "(of_char (asciiUpper c) :: nat) \<le> 90"
  using assms unfolding foldOrbit_def Let_def
  by (auto split: if_splits)

lemma foldOrbit_nonempty: "v \<in> set (foldOrbit c) \<Longrightarrow> v \<noteq> []"
  by (erule foldOrbit_cases) auto

lemma foldOrbit_hd:
  assumes "v \<in> set (foldOrbit c)"
  shows "(v = [c] \<and> \<not> (65 \<le> (of_char (asciiUpper c) :: nat) \<and> (of_char (asciiUpper c) :: nat) \<le> 90)) \<or>
         (65 \<le> (of_char (asciiUpper c) :: nat) \<and> (of_char (asciiUpper c) :: nat) \<le> 90 \<and>
          (((of_char (hd v) :: nat) = of_char (asciiUpper c) \<and> v = [char_of (of_char (asciiUpper c) :: nat)]) \<or>
           ((of_char (hd v) :: nat) = of_char (asciiUpper c) + 32 \<and> v = [char_of ((of_char (asciiUpper c) :: nat) + 32)]) \<or>
           ((of_char (hd v) :: nat) = 226 \<and> v = [char_of (226::nat), char_of (132::nat), char_of (170::nat)]) \<or>
           ((of_char (hd v) :: nat) = 197 \<and> v = [char_of (197::nat), char_of (191::nat)])))"
  using assms
proof (cases rule: foldOrbit_cases)
  case single then show ?thesis by simp
next
  case upper then show ?thesis by simp
next
  case lower then show ?thesis by simp
next
  case kelvin then show ?thesis by simp
next
  case longs then show ?thesis by simp
qed

lemma foldOrbit_hd_inj:
  assumes "v \<in> set (foldOrbit c)" and "v' \<in> set (foldOrbit c)" and "hd v = hd v'"
  shows "v = v'"
proof -
  have h: "(of_char (hd v) :: nat) = (of_char (hd v') :: nat)" using assms(3) by simp
  show ?thesis
    using foldOrbit_hd [OF assms(1)] foldOrbit_hd [OF assms(2)] h
    by (elim disjE conjE) simp_all
qed

lemma stripPrefix_Some_iff: "stripPrefix v s = Some r \<longleftrightarrow> s = v @ r"
  by (induction v s rule: stripPrefix.induct) auto

lemma firstSome_Some:
  "firstSome xs = Some r \<Longrightarrow> Some r \<in> set xs"
  by (induction xs rule: firstSome.induct) auto

lemma firstSome_unique:
  "Some r \<in> set xs \<Longrightarrow> (\<forall>r'. Some r' \<in> set xs \<longrightarrow> r' = r) \<Longrightarrow> firstSome xs = Some r"
proof (induction xs)
  case Nil
  then show ?case by simp
next
  case (Cons x xs)
  show ?case
  proof (cases x)
    case None
    then have a: "Some r \<in> set xs" using Cons.prems(1) by simp
    have b: "\<forall>r'. Some r' \<in> set xs \<longrightarrow> r' = r"
      using Cons.prems(2) by (meson list.set_intros(2))
    have "firstSome xs = Some r" by (rule Cons.IH [OF a b])
    then show ?thesis using None by simp
  next
    case (Some y)
    then have "Some y \<in> set (x # xs)" by simp
    then have "y = r" using Cons.prems(2) by blast
    then show ?thesis using Some by simp
  qed
qed

lemma matchRune_Some_iff:
  "matchRune c s = Some r \<longleftrightarrow> (\<exists>v \<in> set (foldOrbit c). s = v @ r)"
proof
  assume "matchRune c s = Some r"
  then have "Some r \<in> set (map (\<lambda>e. stripPrefix e s) (foldOrbit c))"
    unfolding matchRune_def by (rule firstSome_Some)
  then obtain e where "e \<in> set (foldOrbit c)" "stripPrefix e s = Some r"
    by auto
  then show "\<exists>v \<in> set (foldOrbit c). s = v @ r"
    using stripPrefix_Some_iff by blast
next
  assume "\<exists>v \<in> set (foldOrbit c). s = v @ r"
  then obtain v where v: "v \<in> set (foldOrbit c)" "s = v @ r" by blast
  have "stripPrefix v s = Some r" using v(2) stripPrefix_Some_iff by blast
  then have mem: "Some r \<in> set (map (\<lambda>e. stripPrefix e s) (foldOrbit c))"
    using v(1) by force
  have uniq: "\<forall>r'. Some r' \<in> set (map (\<lambda>e. stripPrefix e s) (foldOrbit c)) \<longrightarrow> r' = r"
  proof (intro allI impI)
    fix r' assume "Some r' \<in> set (map (\<lambda>e. stripPrefix e s) (foldOrbit c))"
    then obtain v' where "v' \<in> set (foldOrbit c)" "stripPrefix v' s = Some r'"
      by auto
    then have v': "v' \<in> set (foldOrbit c)" "s = v' @ r'"
      using stripPrefix_Some_iff by blast+
    have "v \<noteq> []" "v' \<noteq> []" using v(1) v'(1) foldOrbit_nonempty by blast+
    then have "hd v = hd v'" using v(2) v'(2) by (metis hd_append2)
    then have "v = v'" using foldOrbit_hd_inj [OF v(1) v'(1)] by simp
    then show "r' = r" using v(2) v'(2) by simp
  qed
  show "matchRune c s = Some r"
    unfolding matchRune_def by (rule firstSome_unique [OF mem uniq])
qed

lemma caseVariant_Nil: "caseVariant [] pre \<longleftrightarrow> pre = []"
  by (auto simp: caseVariant_def)

lemma caseVariant_Cons:
  "caseVariant (c # cs) pre \<longleftrightarrow>
     (\<exists>v pre'. v \<in> set (foldOrbit c) \<and> pre = v @ pre' \<and> caseVariant cs pre')"
proof
  assume "caseVariant (c # cs) pre"
  then obtain vs where vs: "pre = concat vs"
      "list_all2 (\<lambda>c v. v \<in> set (foldOrbit c)) (c # cs) vs"
    unfolding caseVariant_def by blast
  then obtain v vs' where v: "vs = v # vs'" "v \<in> set (foldOrbit c)"
      "list_all2 (\<lambda>c v. v \<in> set (foldOrbit c)) cs vs'"
    by (auto simp: list_all2_Cons1)
  have "pre = v @ concat vs'" using vs(1) v(1) by simp
  moreover have "caseVariant cs (concat vs')"
    unfolding caseVariant_def using v(3) by blast
  ultimately show "\<exists>v pre'. v \<in> set (foldOrbit c) \<and> pre = v @ pre' \<and> caseVariant cs pre'"
    using v(2) by blast
next
  assume "\<exists>v pre'. v \<in> set (foldOrbit c) \<and> pre = v @ pre' \<and> caseVariant cs pre'"
  then obtain v pre' vs' where v: "v \<in> set (foldOrbit c)" "pre = v @ pre'"
      "pre' = concat vs'" "list_all2 (\<lambda>c v. v \<in> set (foldOrbit c)) cs vs'"
    unfolding caseVariant_def by blast
  have "pre = concat (v # vs')" using v(2,3) by simp
  moreover have "list_all2 (\<lambda>c v. v \<in> set (foldOrbit c)) (c # cs) (v # vs')"
    using v(1,4) by simp
  ultimately show "caseVariant (c # cs) pre"
    unfolding caseVariant_def by blast
qed

lemma matchLiteral_Some_iff:
  "matchLiteral tok s = Some r \<longleftrightarrow> (\<exists>pre. s = pre @ r \<and> caseVariant tok pre)"
proof (induction tok arbitrary: s)
  case Nil
  then show ?case by (auto simp: caseVariant_Nil)
next
  case (Cons c cs)
  have "matchLiteral (c # cs) s = Some r \<longleftrightarrow>
        (\<exists>r1. matchRune c s = Some r1 \<and> matchLiteral cs r1 = Some r)"
    by (auto split: option.splits)
  also have "\<dots> \<longleftrightarrow> (\<exists>r1 v pre'. v \<in> set (foldOrbit c) \<and> s = v @ r1 \<and> r1 = pre' @ r \<and>
                         caseVariant cs pre')"
    unfolding matchRune_Some_iff Cons.IH by blast
  also have "\<dots> \<longleftrightarrow> (\<exists>pre. s = pre @ r \<and> caseVariant (c # cs) pre)"
  proof
    assume "\<exists>r1 v pre'. v \<in> set (foldOrbit c) \<and> s = v @ r1 \<and> r1 = pre' @ r \<and>
                         caseVariant cs pre'"
    then obtain v pre' where h: "v \<in> set (foldOrbit c)" "s = v @ pre' @ r" "caseVariant cs pre'"
      by blast
    have "s = (v @ pre') @ r" using h(2) by simp
    moreover have "caseVariant (c # cs) (v @ pre')"
      using h(1,3) caseVariant_Cons by blast
    ultimately show "\<exists>pre. s = pre @ r \<and> caseVariant (c # cs) pre" by blast
  next
    assume "\<exists>pre. s = pre @ r \<and> caseVariant (c # cs) pre"
    then obtain pre where p: "s = pre @ r" "caseVariant (c # cs) pre" by blast
    then obtain v pre' where h: "v \<in> set (foldOrbit c)" "pre = v @ pre'" "caseVariant cs pre'"
      using caseVariant_Cons by blast
    have "s = v @ (pre' @ r)" using p(1) h(2) by simp
    then show "\<exists>r1 v pre'. v \<in> set (foldOrbit c) \<and> s = v @ r1 \<and> r1 = pre' @ r \<and>
                         caseVariant cs pre'"
      using h(1,3) by blast
  qed
  finally show ?case .
qed

lemma matchLiteral_append:
  "matchLiteral (a @ b) s =
     (case matchLiteral a s of None \<Rightarrow> None | Some r \<Rightarrow> matchLiteral b r)"
  by (induction a arbitrary: s) (auto split: option.splits)

lemma matchLiteral_colon_iff:
  "matchLiteral '':'' r \<noteq> None \<longleftrightarrow> (\<exists>rest. r = '':'' @ rest)"
  by (cases r) (auto simp: matchRune_Nil matchRune_colon)

lemma MatchString_iff:
  "MatchString re s \<longleftrightarrow>
     (\<exists>tok \<in> set re. \<exists>pre rest. s = pre @ '':'' @ rest \<and> caseVariant tok pre)"
proof -
  have one: "matchLiteral (tok @ '':'') s \<noteq> None \<longleftrightarrow>
        (\<exists>pre rest. s = pre @ '':'' @ rest \<and> caseVariant tok pre)" for tok
  proof
    assume "matchLiteral (tok @ '':'') s \<noteq> None"
    then obtain r where r: "matchLiteral tok s = Some r" "matchLiteral '':'' r \<noteq> None"
      by (auto simp: matchLiteral_append split: option.splits)
    from r(1) obtain pre where pre: "s = pre @ r" "caseVariant tok pre"
      using matchLiteral_Some_iff by blast
    from r(2) obtain rest where "r = '':'' @ rest"
      using matchLiteral_colon_iff by blast
    then show "\<exists>pre rest. s = pre @ '':'' @ rest \<and> caseVariant tok pre"
      using pre by blast
  next
    assume "\<exists>pre rest. s = pre @ '':'' @ rest \<and> caseVariant tok pre"
    then obtain pre rest where h: "s = pre @ '':'' @ rest" "caseVariant tok pre" by blast
    then have "matchLiteral tok s = Some ('':'' @ rest)"
      using matchLiteral_Some_iff by blast
    moreover have "matchLiteral '':'' ('':'' @ rest) \<noteq> None"
      using matchLiteral_colon_iff by blast
    ultimately show "matchLiteral (tok @ '':'') s \<noteq> None"
      by (simp add: matchLiteral_append)
  qed
  show ?thesis
    unfolding MatchString_def list_ex_iff one ..
qed

lemma foldOrbit_upper_self:
  assumes "isUpperLetter u" and "asciiUpper b = u"
  shows "[b] \<in> set (foldOrbit u)"
proof -
  have "(of_char b :: nat) = of_char u \<or> (of_char b :: nat) = of_char u + 32"
    using assms asciiUpper_eq_upper by blast
  then show ?thesis
    using assms(1)
    unfolding foldOrbit_def Let_def isUpperLetter_def
    by (auto simp: asciiUpper_upper [OF assms(1)] char_eq_char_of)
qed

lemma caseVariant_asciiUpper:
  "list_all isUpperLetter tok \<Longrightarrow> map asciiUpper pre = tok \<Longrightarrow> caseVariant tok pre"
proof (induction tok arbitrary: pre)
  case Nil
  then show ?case by (simp add: caseVariant_Nil)
next
  case (Cons u tok)
  then obtain b pre' where pre: "pre = b # pre'" "asciiUpper b = u" "map asciiUpper pre' = tok"
    by auto
  have "[b] \<in> set (foldOrbit u)"
    using Cons.prems(1) pre(2) by (simp add: foldOrbit_upper_self)
  moreover have "caseVariant tok pre'"
    using Cons.IH Cons.prems(1) pre(3) by simp
  moreover have "pre = [b] @ pre'" using pre(1) by simp
  ultimately show ?case using caseVariant_Cons by blast
qed

lemma foldOrbit_upper_ascii:
  assumes "isUpperLetter u" and "v \<in> set (foldOrbit u)" and "isASCII v"
  shows "\<exists>b. v = [b] \<and> asciiUpper b = u"
  using assms(2)
proof (cases rule: foldOrbit_cases)
  case single
  then show ?thesis using assms(1) by (simp add: asciiUpper_upper isUpperLetter_def)
next
  case upper
  then show ?thesis using assms(1) by (simp add: asciiUpper_upper)
next
  case lower
  have "asciiUpper (char_of ((of_char u :: nat) + 32)) = u"
    using assms(1) by (simp add: asciiUpper_def isUpperLetter_def)
  then show ?thesis using lower(1) assms(1) by (simp add: asciiUpper_upper)
next
  case kelvin
  then show ?thesis using assms(3) by (simp add: isASCII_def)
next
  case longs
  then show ?thesis using assms(3) by (simp add: isASCII_def)
qed

lemma caseVariant_ascii:
  "list_all isUpperLetter tok \<Longrightarrow> isASCII pre \<Longrightarrow> caseVariant tok pre \<Longrightarrow>
   map asciiUpper pre = tok"
proof (induction tok arbitrary: pre)
  case Nil
  then show ?case by (simp add: caseVariant_Nil)
next
  case (Cons u tok)
  from Cons.prems(3) obtain v pre' where
    h: "v \<in> set (foldOrbit u)" "pre = v @ pre'" "caseVariant tok pre'"
    using caseVariant_Cons by blast
  have av: "isASCII v" and ap: "isASCII pre'"
    using Cons.prems(2) h(2) by (simp_all add: isASCII_def)
  have u: "isUpperLetter u" and tok: "list_all isUpperLetter tok"
    using Cons.prems(1) by simp_all
  obtain b where b: "v = [b]" "asciiUpper b = u"
    using foldOrbit_upper_ascii [OF u h(1) av] by blast
  have "map asciiUpper pre' = tok" by (rule Cons.IH [OF tok ap h(3)])
  then show ?case using h(2) b by simp
qed

lemma caseVariant_rules:
  assumes "lp \<in> set defaultLabelPatterns" and "tok \<in> set (Pattern lp)"
  shows "(map asciiUpper pre = tok \<longrightarrow> caseVariant tok pre) \<and>
         (isASCII pre \<longrightarrow> caseVariant tok pre = (map asciiUpper pre = tok))"
proof -
  have up: "list_all isUpperLetter tok"
    using defaultLabelPatterns_upper [OF assms(1)] assms(2) by (simp add: list_all_iff)
  show ?thesis
    using caseVariant_asciiUpper [OF up] caseVariant_ascii [OF up] by blast
qed

lemma startsWithToken_MatchString:
  assumes "lp \<in> set defaultLabelPatterns" and "tok \<in> set (Pattern lp)"
    and "startsWithToken tok title"
  shows "MatchString (Pattern lp) title"
proof -
  have up: "list_all isUpperLetter tok"
    using defaultLabelPatterns_upper [OF assms(1)] assms(2) by (simp add: list_all_iff)
  have "title = take (length tok) title @ '':'' @ drop (Suc (length tok)) title"
    using assms(3) id_take_nth_drop [of "length tok" title] by (simp add: startsWithToken_def)
  moreover have "MatchString (Pattern lp)
       (take (length tok) title @ '':'' @ drop (Suc (length tok)) title)"
    using assms(3) by (intro MatchString_variant [OF assms(2) up]) (simp add: startsWithToken_def)
  ultimately show ?thesis by simp
qed

lemma MatchString_startsWithToken:
  assumes "lp \<in> set defaultLabelPatterns" and "isASCII title"
  shows "MatchString (Pattern lp) title = (\<exists>tok \<in> set (Pattern lp). startsWithToken tok title)"
  using MatchString_ascii [OF defaultLabelPatterns_upper [OF assms(1)] assms(2)]
  by (simp add: startsWithToken_def)

text \<open>
  C3. For every issue, \<open>autoLabel\<close> leaves the title unchanged. The rules are
  BUG/FIX/BUGFIX for bug, FEAT/FEATURE for feature, DOCS/DOCUMENTATION for documentation,
  REFACTOR for refactor, TEST/TESTS for testing, CHORE for chore. For every title, a rule
  matches exactly when the title begins with a case variant of one of its tokens followed
  by a colon. Every mix of upper-case and lower-case letters of a token is a case variant,
  and a case variant made of ASCII bytes is such a mix. The resulting labels are the
  existing ones together with the label of every matching rule and no other, without a
  new duplicate, sorted ascending.
\<close>

theorem autoLabel_applies_rules:
  "Title (autoLabel issue) = Title issue \<and>
   map (\<lambda>lp. (Pattern lp, Label lp)) defaultLabelPatterns =
     [([''BUG'', ''FIX'', ''BUGFIX''], ''bug''),
      ([''FEAT'', ''FEATURE''], ''feature''),
      ([''DOCS'', ''DOCUMENTATION''], ''documentation''),
      ([''REFACTOR''], ''refactor''),
      ([''TEST'', ''TESTS''], ''testing''),
      ([''CHORE''], ''chore'')] \<and>
   (\<forall>lp \<in> set defaultLabelPatterns.
      MatchString (Pattern lp) (Title issue) =
      (\<exists>tok \<in> set (Pattern lp). \<exists>pre rest.
          Title issue = pre @ '':'' @ rest \<and> caseVariant tok pre)) \<and>
   (\<forall>lp \<in> set defaultLabelPatterns. \<forall>tok \<in> set (Pattern lp). \<forall>pre.
      (map asciiUpper pre = tok \<longrightarrow> caseVariant tok pre) \<and>
      (isASCII pre \<longrightarrow> caseVariant tok pre = (map asciiUpper pre = tok))) \<and>
   (\<forall>lp \<in> set defaultLabelPatterns.
      (\<exists>tok \<in> set (Pattern lp). startsWithToken tok (Title issue)) \<longrightarrow>
      MatchString (Pattern lp) (Title issue)) \<and>
   (isASCII (Title issue) \<longrightarrow>
      (\<forall>lp \<in> set defaultLabelPatterns.
         MatchString (Pattern lp) (Title issue) =
         (\<exists>tok \<in> set (Pattern lp). startsWithToken tok (Title issue)))) \<and>
   set (Labels (autoLabel issue)) =
     set (Labels issue) \<union>
     {Label lp | lp. lp \<in> set defaultLabelPatterns \<and> MatchString (Pattern lp) (Title issue)} \<and>
   (distinct (Labels issue) \<longrightarrow> distinct (Labels (autoLabel issue))) \<and>
   sorted (Labels (autoLabel issue))"
proof -
  have table: "map (\<lambda>lp. (Pattern lp, Label lp)) defaultLabelPatterns =
     [([''BUG'', ''FIX'', ''BUGFIX''], ''bug''),
      ([''FEAT'', ''FEATURE''], ''feature''),
      ([''DOCS'', ''DOCUMENTATION''], ''documentation''),
      ([''REFACTOR''], ''refactor''),
      ([''TEST'', ''TESTS''], ''testing''),
      ([''CHORE''], ''chore'')]"
    by (simp add: defaultLabelPatterns_def)
  have every: "\<forall>lp \<in> set defaultLabelPatterns.
      MatchString (Pattern lp) (Title issue) =
      (\<exists>tok \<in> set (Pattern lp). \<exists>pre rest.
          Title issue = pre @ '':'' @ rest \<and> caseVariant tok pre)"
    using MatchString_iff by blast
  have variants: "\<forall>lp \<in> set defaultLabelPatterns. \<forall>tok \<in> set (Pattern lp). \<forall>pre.
      (map asciiUpper pre = tok \<longrightarrow> caseVariant tok pre) \<and>
      (isASCII pre \<longrightarrow> caseVariant tok pre = (map asciiUpper pre = tok))"
    using caseVariant_rules by blast
  have starts: "\<forall>lp \<in> set defaultLabelPatterns.
      (\<exists>tok \<in> set (Pattern lp). startsWithToken tok (Title issue)) \<longrightarrow>
      MatchString (Pattern lp) (Title issue)"
    using startsWithToken_MatchString by blast
  have ascii: "isASCII (Title issue) \<longrightarrow>
      (\<forall>lp \<in> set defaultLabelPatterns.
         MatchString (Pattern lp) (Title issue) =
         (\<exists>tok \<in> set (Pattern lp). startsWithToken tok (Title issue)))"
    using MatchString_startsWithToken by blast
  show ?thesis
    by (intro conjI autoLabel_Title table every variants starts ascii autoLabel_set
          autoLabel_sorted impI autoLabel_distinct)
qed

theorem autoLabel_applies_rules_witness:
  "isASCII ''fEaT: dark mode'' \<and> distinct [''ui'', ''a11y''] \<and>
   startsWithToken ''FEAT'' ''fEaT: dark mode'' \<and>
   MatchString [''FEAT'', ''FEATURE''] ''fEaT: dark mode'' \<and>
   Title (autoLabel \<lparr>ID = 1, Title = ''fEaT: dark mode'', Status = ''open'',
                     Labels = [''ui'', ''a11y''], CreatedAt = 0\<rparr>) = ''fEaT: dark mode'' \<and>
   distinct (Labels (autoLabel \<lparr>ID = 1, Title = ''fEaT: dark mode'', Status = ''open'',
                     Labels = [''ui'', ''a11y''], CreatedAt = 0\<rparr>)) \<and>
   Labels (autoLabel \<lparr>ID = 1, Title = ''fEaT: dark mode'', Status = ''open'',
                     Labels = [''ui'', ''a11y''], CreatedAt = 0\<rparr>) = [''a11y'', ''feature'', ''ui''] \<and>
   map asciiUpper ''Fix'' = ''FIX'' \<and> caseVariant ''FIX'' ''Fix'' \<and>
   MatchString [''BUG'', ''FIX'', ''BUGFIX''] (''Fix: caf'' @ [CHR 0xC3, CHR 0xA9]) \<and>
   Labels (autoLabel \<lparr>ID = 2, Title = ''Fix: caf'' @ [CHR 0xC3, CHR 0xA9], Status = ''open'',
                     Labels = [], CreatedAt = 0\<rparr>) = [''bug'']"
proof -
  let ?i = "\<lparr>ID = 1, Title = ''fEaT: dark mode'', Status = ''open'',
             Labels = [''ui'', ''a11y''], CreatedAt = 0\<rparr>"
  let ?j = "\<lparr>ID = 2, Title = ''Fix: caf'' @ [CHR 0xC3, CHR 0xA9], Status = ''open'',
             Labels = [], CreatedAt = 0\<rparr>"
  let ?feat = "\<lparr>Pattern = [''FEAT'', ''FEATURE''], Label = ''feature''\<rparr>"
  let ?bug = "\<lparr>Pattern = [''BUG'', ''FIX'', ''BUGFIX''], Label = ''bug''\<rparr>"
  have a: "isASCII (Title ?i)" by code_simp
  have d: "distinct (Labels ?i)" by simp
  have s: "startsWithToken ''FEAT'' (Title ?i)" by code_simp
  have lp: "?feat \<in> set defaultLabelPatterns"
    by (simp add: defaultLabelPatterns_def)
  have bug: "?bug \<in> set defaultLabelPatterns"
    by (simp add: defaultLabelPatterns_def)
  have t: "Title (autoLabel ?i) = Title ?i"
    using autoLabel_applies_rules [of ?i] by (elim conjE)
  have st: "\<forall>lp \<in> set defaultLabelPatterns.
      (\<exists>tok \<in> set (Pattern lp). startsWithToken tok (Title ?i)) \<longrightarrow>
      MatchString (Pattern lp) (Title ?i)"
    using autoLabel_applies_rules [of ?i] by (elim conjE)
  have dd: "distinct (Labels ?i) \<longrightarrow> distinct (Labels (autoLabel ?i))"
    using autoLabel_applies_rules [of ?i] by (elim conjE)
  have "(\<exists>tok \<in> set (Pattern ?feat). startsWithToken tok (Title ?i)) \<longrightarrow>
      MatchString (Pattern ?feat) (Title ?i)"
    using st lp by (rule bspec)
  moreover have "\<exists>tok \<in> set (Pattern ?feat). startsWithToken tok (Title ?i)"
    using s by simp
  ultimately have "MatchString (Pattern ?feat) (Title ?i)" by (rule mp)
  then have m: "MatchString [''FEAT'', ''FEATURE''] (Title ?i)" by simp
  have d': "distinct (Labels (autoLabel ?i))" using dd d by (rule mp)
  have v: "Labels (autoLabel ?i) = [''a11y'', ''feature'', ''ui'']" by code_simp
  have up: "map asciiUpper ''Fix'' = ''FIX''" by code_simp
  have ev: "\<forall>lp \<in> set defaultLabelPatterns.
      MatchString (Pattern lp) (Title ?j) =
      (\<exists>tok \<in> set (Pattern lp). \<exists>pre rest.
          Title ?j = pre @ '':'' @ rest \<and> caseVariant tok pre)"
    using autoLabel_applies_rules [of ?j] by (elim conjE)
  have all: "\<forall>lp \<in> set defaultLabelPatterns. \<forall>tok \<in> set (Pattern lp). \<forall>pre.
      (map asciiUpper pre = tok \<longrightarrow> caseVariant tok pre) \<and>
      (isASCII pre \<longrightarrow> caseVariant tok pre = (map asciiUpper pre = tok))"
    using autoLabel_applies_rules [of ?j] by (elim conjE)
  have "\<forall>tok \<in> set (Pattern ?bug). \<forall>pre.
      (map asciiUpper pre = tok \<longrightarrow> caseVariant tok pre) \<and>
      (isASCII pre \<longrightarrow> caseVariant tok pre = (map asciiUpper pre = tok))"
    using all bug by (rule bspec)
  moreover have "''FIX'' \<in> set (Pattern ?bug)" by simp
  ultimately have "\<forall>pre.
      (map asciiUpper pre = ''FIX'' \<longrightarrow> caseVariant ''FIX'' pre) \<and>
      (isASCII pre \<longrightarrow> caseVariant ''FIX'' pre = (map asciiUpper pre = ''FIX''))"
    by (rule bspec)
  then have "(map asciiUpper ''Fix'' = ''FIX'' \<longrightarrow> caseVariant ''FIX'' ''Fix'') \<and>
      (isASCII ''Fix'' \<longrightarrow> caseVariant ''FIX'' ''Fix'' = (map asciiUpper ''Fix'' = ''FIX''))"
    by (rule spec)
  then have "map asciiUpper ''Fix'' = ''FIX'' \<longrightarrow> caseVariant ''FIX'' ''Fix''"
    by (rule conjunct1)
  then have cv: "caseVariant ''FIX'' ''Fix''" using up by (rule mp)
  have evb: "MatchString (Pattern ?bug) (Title ?j) =
      (\<exists>tok \<in> set (Pattern ?bug). \<exists>pre rest.
          Title ?j = pre @ '':'' @ rest \<and> caseVariant tok pre)"
    using ev bug by (rule bspec)
  have split: "Title ?j = ''Fix'' @ '':'' @ ('' caf'' @ [CHR 0xC3, CHR 0xA9])" by simp
  have "\<exists>pre rest. Title ?j = pre @ '':'' @ rest \<and> caseVariant ''FIX'' pre"
    using split cv by blast
  then have "\<exists>tok \<in> set (Pattern ?bug). \<exists>pre rest.
          Title ?j = pre @ '':'' @ rest \<and> caseVariant tok pre"
    by (intro bexI [of _ "''FIX''"]) simp_all
  with evb have "MatchString (Pattern ?bug) (Title ?j)" by (rule iffD2)
  then have mj: "MatchString [''BUG'', ''FIX'', ''BUGFIX''] (Title ?j)" by simp
  have vj: "Labels (autoLabel ?j) = [''bug'']" by code_simp
  show ?thesis using a d s m t d' v up cv mj vj by simp
qed

text \<open>
  C6. Running \<open>autoLabel\<close> a second time changes nothing: the labels after two runs
  are the labels after one.
\<close>

theorem autoLabel_idempotent:
  "Labels (autoLabel (autoLabel issue)) = Labels (autoLabel issue)"
  by (simp add: autoLabel_idem)

theorem autoLabel_idempotent_witness:
  "Labels (autoLabel \<lparr>ID = 3, Title = ''Docs: readme'', Status = ''open'',
                        Labels = [''zz''], CreatedAt = 0\<rparr>) = [''documentation'', ''zz''] \<and>
   Labels (autoLabel (autoLabel \<lparr>ID = 3, Title = ''Docs: readme'', Status = ''open'',
                        Labels = [''zz''], CreatedAt = 0\<rparr>)) = [''documentation'', ''zz'']"
proof -
  let ?i = "\<lparr>ID = 3, Title = ''Docs: readme'', Status = ''open'', Labels = [''zz''], CreatedAt = 0\<rparr>"
  have v: "Labels (autoLabel ?i) = [''documentation'', ''zz'']" by code_simp
  show ?thesis using autoLabel_idempotent [of ?i] v by simp
qed

section \<open>Listing\<close>

lemma labelFound_iff: "labelFound f ls = (f \<in> set ls)"
  by (induction ls) auto

lemma listIssues_loop_filter:
  "listIssues_loop f c issues =
     filter (\<lambda>i. (c \<or> Status i \<noteq> statusClosed) \<and> (f = [] \<or> f \<in> set (Labels i))) issues"
  by (induction issues) (auto simp: labelFound_iff)

text \<open>
  C4, as the code has it. For every loaded store, label filter and flag, the issues
  printed by \<open>listIssues\<close> are exactly those with (includeClosed or status not
  \<^verbatim>\<open>closed\<close>) and (empty filter or the filter is, byte for byte, one of the issue's
  labels), in the order of the loaded sequence; the output is one line per such issue, or
  the no-issues line. When every status of the store is \<^verbatim>\<open>open\<close> or \<^verbatim>\<open>closed\<close>, these are
  the issues with (includeClosed or status \<^verbatim>\<open>open\<close>).
\<close>

theorem listIssues_filter_correct:
  assumes "loadIssues w = Inr issues"
  shows "listIssues_loop labelFilter includeClosed issues =
           filter (\<lambda>i. (includeClosed \<or> Status i \<noteq> statusClosed) \<and>
                        (labelFilter = [] \<or> labelFilter \<in> set (Labels i))) issues \<and>
         listIssues labelFilter includeClosed w =
           (Inr (map issueLine (listIssues_loop labelFilter includeClosed issues) @
                 (if listIssues_loop labelFilter includeClosed issues = [] then [NoIssuesFound]
                  else [])), w) \<and>
         ((\<forall>i \<in> set issues. Status i = statusOpen \<or> Status i = statusClosed) \<longrightarrow>
            listIssues_loop labelFilter includeClosed issues =
              filter (\<lambda>i. (includeClosed \<or> Status i = statusOpen) \<and>
                           (labelFilter = [] \<or> labelFilter \<in> set (Labels i))) issues)"
proof -
  have a: "listIssues_loop labelFilter includeClosed issues =
           filter (\<lambda>i. (includeClosed \<or> Status i \<noteq> statusClosed) \<and>
                        (labelFilter = [] \<or> labelFilter \<in> set (Labels i))) issues"
    by (rule listIssues_loop_filter)
  have b: "listIssues labelFilter includeClosed w =
           (Inr (map issueLine (listIssues_loop labelFilter includeClosed issues) @
                 (if listIssues_loop labelFilter includeClosed issues = [] then [NoIssuesFound]
                  else [])), w)"
    using assms by (simp add: listIssues_def Let_def)
  have c: "(\<forall>i \<in> set issues. Status i = statusOpen \<or> Status i = statusClosed) \<longrightarrow>
            listIssues_loop labelFilter includeClosed issues =
              filter (\<lambda>i. (includeClosed \<or> Status i = statusOpen) \<and>
                           (labelFilter = [] \<or> labelFilter \<in> set (Labels i))) issues"
  proof
    assume st: "\<forall>i \<in> set issues. Status i = statusOpen \<or> Status i = statusClosed"
    have "filter (\<lambda>i. (includeClosed \<or> Status i \<noteq> statusClosed) \<and>
                        (labelFilter = [] \<or> labelFilter \<in> set (Labels i))) issues =
          filter (\<lambda>i. (includeClosed \<or> Status i = statusOpen) \<and>
                        (labelFilter = [] \<or> labelFilter \<in> set (Labels i))) issues"
      using st by (intro filter_cong) (auto simp: statusOpen_def statusClosed_def)
    then show "listIssues_loop labelFilter includeClosed issues =
              filter (\<lambda>i. (includeClosed \<or> Status i = statusOpen) \<and>
                           (labelFilter = [] \<or> labelFilter \<in> set (Labels i))) issues"
      using a by simp
  qed
  show ?thesis by (intro conjI a b c)
qed

theorem listIssues_filter_correct_witness:
  "loadIssues exampleWorld = Inr exampleStore \<and>
   list_all (\<lambda>i. Status i = statusOpen \<or> Status i = statusClosed) exampleStore \<and>
   listIssues_loop ''bug'' False exampleStore = [exampleStore ! 0] \<and>
   listIssues_loop [] False exampleStore = [exampleStore ! 0, exampleStore ! 2] \<and>
   listIssues_loop ''feature'' True exampleStore = [exampleStore ! 1] \<and>
   fst (listIssues ''Bug'' True exampleWorld) = Inr [NoIssuesFound]"
proof -
  have l: "loadIssues exampleWorld = Inr exampleStore" by code_simp
  have s: "\<forall>i \<in> set exampleStore. Status i = statusOpen \<or> Status i = statusClosed"
    by (simp add: exampleStore_def statusOpen_def statusClosed_def)
  have f1: "filter (\<lambda>i. (False \<or> Status i = statusOpen) \<and>
                        (''bug'' = [] \<or> ''bug'' \<in> set (Labels i))) exampleStore =
            [exampleStore ! 0]"
    by (simp add: exampleStore_def statusOpen_def)
  have f2: "filter (\<lambda>i. (False \<or> Status i = statusOpen) \<and>
                        ([] = ([] :: string) \<or> [] \<in> set (Labels i))) exampleStore =
            [exampleStore ! 0, exampleStore ! 2]"
    by (simp add: exampleStore_def statusOpen_def)
  have f3: "filter (\<lambda>i. (True \<or> Status i = statusOpen) \<and>
                        (''feature'' = [] \<or> ''feature'' \<in> set (Labels i))) exampleStore =
            [exampleStore ! 1]"
    by (simp add: exampleStore_def statusOpen_def)
  have f4: "filter (\<lambda>i. (True \<or> Status i \<noteq> statusClosed) \<and>
                        (''Bug'' = [] \<or> ''Bug'' \<in> set (Labels i))) exampleStore = []"
    by (simp add: exampleStore_def statusOpen_def)
  have "(\<forall>i \<in> set exampleStore. Status i = statusOpen \<or> Status i = statusClosed) \<longrightarrow>
      listIssues_loop ''bug'' False exampleStore =
        filter (\<lambda>i. (False \<or> Status i = statusOpen) \<and>
                     (''bug'' = [] \<or> ''bug'' \<in> set (Labels i))) exampleStore"
    using listIssues_filter_correct [OF l, of "''bug''" False] by (elim conjE)
  then have "listIssues_loop ''bug'' False exampleStore =
        filter (\<lambda>i. (False \<or> Status i = statusOpen) \<and>
                     (''bug'' = [] \<or> ''bug'' \<in> set (Labels i))) exampleStore"
    using s by (rule mp)
  then have g1: "listIssues_loop ''bug'' False exampleStore = [exampleStore ! 0]"
    using f1 by (simp only:)
  have "(\<forall>i \<in> set exampleStore. Status i = statusOpen \<or> Status i = statusClosed) \<longrightarrow>
      listIssues_loop [] False exampleStore =
        filter (\<lambda>i. (False \<or> Status i = statusOpen) \<and>
                     ([] = ([] :: string) \<or> [] \<in> set (Labels i))) exampleStore"
    using listIssues_filter_correct [OF l, of "[]" False] by (elim conjE)
  then have "listIssues_loop [] False exampleStore =
        filter (\<lambda>i. (False \<or> Status i = statusOpen) \<and>
                     ([] = ([] :: string) \<or> [] \<in> set (Labels i))) exampleStore"
    using s by (rule mp)
  then have g2: "listIssues_loop [] False exampleStore = [exampleStore ! 0, exampleStore ! 2]"
    using f2 by (simp only:)
  have "(\<forall>i \<in> set exampleStore. Status i = statusOpen \<or> Status i = statusClosed) \<longrightarrow>
      listIssues_loop ''feature'' True exampleStore =
        filter (\<lambda>i. (True \<or> Status i = statusOpen) \<and>
                     (''feature'' = [] \<or> ''feature'' \<in> set (Labels i))) exampleStore"
    using listIssues_filter_correct [OF l, of "''feature''" True] by (elim conjE)
  then have "listIssues_loop ''feature'' True exampleStore =
        filter (\<lambda>i. (True \<or> Status i = statusOpen) \<and>
                     (''feature'' = [] \<or> ''feature'' \<in> set (Labels i))) exampleStore"
    using s by (rule mp)
  then have g3: "listIssues_loop ''feature'' True exampleStore = [exampleStore ! 1]"
    using f3 by (simp only:)
  have g4: "fst (listIssues ''Bug'' True exampleWorld) = Inr [NoIssuesFound]"
    using listIssues_filter_correct [OF l, of "''Bug''" True] f4 by simp
  have s': "list_all (\<lambda>i. Status i = statusOpen \<or> Status i = statusClosed) exampleStore"
    using s by (simp add: list_all_iff)
  show ?thesis by (intro conjI l s' g1 g2 g3 g4)
qed

text \<open>
  An issue whose status is neither \<^verbatim>\<open>open\<close> nor \<^verbatim>\<open>closed\<close> is listed although closed
  issues are hidden and its status is not \<^verbatim>\<open>open\<close>.
\<close>

theorem listIssues_filter_correct_counterexample:
  "loadIssues (exampleWorld\<lparr>dbFile := Stored
       [\<lparr>ID = 7, Title = ''ship it'', Status = ''done'', Labels = [], CreatedAt = 0\<rparr>]\<rparr>) =
     Inr [\<lparr>ID = 7, Title = ''ship it'', Status = ''done'', Labels = [], CreatedAt = 0\<rparr>] \<and>
   ''done'' \<noteq> statusOpen \<and>
   listIssues_loop [] False
       [\<lparr>ID = 7, Title = ''ship it'', Status = ''done'', Labels = [], CreatedAt = 0\<rparr>] =
     [\<lparr>ID = 7, Title = ''ship it'', Status = ''done'', Labels = [], CreatedAt = 0\<rparr>] \<and>
   fst (listIssues [] False (exampleWorld\<lparr>dbFile := Stored
       [\<lparr>ID = 7, Title = ''ship it'', Status = ''done'', Labels = [], CreatedAt = 0\<rparr>]\<rparr>)) =
     Inr [IssueLine CheckMark 7 ''ship it'' []]"
  by code_simp

section \<open>Closing an issue\<close>

lemma closeIssue_loop_NotFound:
  "(\<forall>i \<in> set issues. ID i \<noteq> n) \<Longrightarrow> closeIssue_loop n issues = NotFound"
  by (induction issues) auto

lemma closeIssue_loop_first:
  "k < length issues \<Longrightarrow> ID (issues ! k) = n \<Longrightarrow> (\<forall>j < k. ID (issues ! j) \<noteq> n) \<Longrightarrow>
   closeIssue_loop n issues =
     (if Status (issues ! k) = statusClosed then AlreadyClosed
      else Found (issues[k := (issues ! k)\<lparr>Status := statusClosed\<rparr>]))"
proof (induction issues arbitrary: k)
  case Nil
  then show ?case by simp
next
  case (Cons x xs)
  show ?case
  proof (cases k)
    case 0
    then show ?thesis using Cons.prems by simp
  next
    case (Suc k')
    have x: "ID x \<noteq> n" using Cons.prems(3) Suc by auto
    have "k' < length xs" "ID (xs ! k') = n" "\<forall>j < k'. ID (xs ! j) \<noteq> n"
      using Cons.prems Suc by auto
    from Cons.IH [OF this] show ?thesis using x Suc by simp
  qed
qed

lemma closeIssue_loop_Found:
  "closeIssue_loop n issues = Found issues' \<Longrightarrow>
   \<exists>k < length issues. issues' = issues[k := (issues ! k)\<lparr>Status := statusClosed\<rparr>]"
proof (induction issues arbitrary: issues')
  case Nil
  then show ?case by simp
next
  case (Cons x xs)
  show ?case
  proof (cases "ID x = n")
    case True
    then have "issues' = (x # xs)[0 := ((x # xs) ! 0)\<lparr>Status := statusClosed\<rparr>]"
      using Cons.prems by (simp split: if_splits)
    then show ?thesis by blast
  next
    case False
    then obtain ys where ys: "closeIssue_loop n xs = Found ys" "issues' = x # ys"
      using Cons.prems by (auto split: close_scan.splits)
    from Cons.IH [OF ys(1)] obtain k where
      k: "k < length xs" "ys = xs[k := (xs ! k)\<lparr>Status := statusClosed\<rparr>]" by blast
    have "Suc k < length (x # xs)" using k(1) by simp
    moreover have "issues' = (x # xs)[Suc k := ((x # xs) ! Suc k)\<lparr>Status := statusClosed\<rparr>]"
      using ys(2) k(2) by simp
    ultimately show ?thesis by blast
  qed
qed

text \<open>
  C8. When the argument parses to an id that no issue of the loaded store has,
  \<open>closeIssue\<close> fails with \<open>IssueNotFound\<close> and leaves the environment as it was:
  the database file is unchanged and nothing is written.
\<close>

theorem closeIssue_missing_id:
  assumes "Atoi idStr = Some n" and "loadIssues w = Inr issues"
    and "\<forall>i \<in> set issues. ID i \<noteq> n"
  shows "closeIssue idStr w = (Inl (IssueNotFound n), w)"
  using assms by (simp add: closeIssue_def closeIssue_loop_NotFound)

theorem closeIssue_missing_id_witness:
  "Atoi ''99'' = Some 99 \<and> loadIssues exampleWorld = Inr exampleStore \<and>
   list_all (\<lambda>i. ID i \<noteq> 99) exampleStore \<and>
   closeIssue ''99'' exampleWorld = (Inl (IssueNotFound 99), exampleWorld)"
proof -
  have a: "Atoi ''99'' = Some 99" by code_simp
  have l: "loadIssues exampleWorld = Inr exampleStore" by code_simp
  have n: "\<forall>i \<in> set exampleStore. ID i \<noteq> 99" by (simp add: exampleStore_def)
  show ?thesis using closeIssue_missing_id [OF a l n] a l n by (simp add: list_all_iff)
qed

text \<open>
  C10. Let the first issue of the loaded store with the requested id be at position k.
  If it is already closed, \<open>closeIssue\<close> reports so and leaves the environment as it
  was (no write). If it is open, the collection handed to the file write is the loaded
  sequence with only the status of position k set to \<^verbatim>\<open>closed\<close> (every other field and
  every other issue, and all positions, unchanged), and when the write succeeds that is
  the new content of the file.
\<close>

theorem closeIssue_frame:
  assumes "Atoi idStr = Some n" and "loadIssues w = Inr issues"
    and "k < length issues" and "ID (issues ! k) = n" and "\<forall>j < k. ID (issues ! j) \<noteq> n"
  shows "(Status (issues ! k) = statusClosed \<longrightarrow>
            closeIssue idStr w = (Inr (ReportAlreadyClosed n), w)) \<and>
         (Status (issues ! k) = statusOpen \<longrightarrow>
            writes (snd (closeIssue idStr w)) =
              writes w @ [issues[k := (issues ! k)\<lparr>Status := statusClosed\<rparr>]] \<and>
            (writeFails w = None \<longrightarrow>
               closeIssue idStr w =
                 (Inr (ReportClosed n),
                  w\<lparr>dbFile := Stored (issues[k := (issues ! k)\<lparr>Status := statusClosed\<rparr>]),
                     writes := writes w @ [issues[k := (issues ! k)\<lparr>Status := statusClosed\<rparr>]]\<rparr>)))"
proof -
  have root: "getDBPath w \<noteq> Inl NotARepository"
    using assms(2) by (auto simp: loadIssues_def split: sum.splits)
  show ?thesis
    using assms(1,2) root closeIssue_loop_first [OF assms(3,4,5)]
    by (auto simp: closeIssue_def saveIssues_def getDBPath_def statusOpen_def statusClosed_def
             split: sum.splits option.splits)
qed

theorem closeIssue_frame_witness:
  "Atoi ''2'' = Some 2 \<and> Atoi ''4'' = Some 4 \<and> loadIssues exampleWorld = Inr exampleStore \<and>
   Status (exampleStore ! 1) = statusClosed \<and> Status (exampleStore ! 2) = statusOpen \<and>
   writeFails exampleWorld = None \<and>
   closeIssue ''2'' exampleWorld = (Inr (ReportAlreadyClosed 2), exampleWorld) \<and>
   fst (closeIssue ''4'' exampleWorld) = Inr (ReportClosed 4) \<and>
   dbFile (snd (closeIssue ''4'' exampleWorld)) =
     Stored [exampleStore ! 0, exampleStore ! 1,
             \<lparr>ID = 4, Title = ''write docs'', Status = ''closed'', Labels = [],
              CreatedAt = 1700000200\<rparr>]"
proof -
  have a2: "Atoi ''2'' = Some 2" by code_simp
  have a4: "Atoi ''4'' = Some 4" by code_simp
  have l: "loadIssues exampleWorld = Inr exampleStore" by code_simp
  have k1: "1 < length exampleStore" "ID (exampleStore ! 1) = 2"
    "\<forall>j < 1. ID (exampleStore ! j) \<noteq> 2"
    by (simp_all add: exampleStore_def)
  have k2': "ID (exampleStore ! 0) \<noteq> 4" "ID (exampleStore ! Suc 0) \<noteq> 4"
    by (simp_all add: exampleStore_def)
  have k2'': "\<forall>j < 2. ID (exampleStore ! j) \<noteq> 4"
  proof (intro allI impI)
    fix j :: nat assume "j < 2"
    then have "j = 0 \<or> j = Suc 0" by (rule less_2_cases)
    then show "ID (exampleStore ! j) \<noteq> 4" using k2' by blast
  qed
  have k2: "2 < length exampleStore" "ID (exampleStore ! 2) = 4"
    "\<forall>j < 2. ID (exampleStore ! j) \<noteq> 4"
    using k2'' by (simp_all add: exampleStore_def)
  have s1: "Status (exampleStore ! 1) = statusClosed" by code_simp
  have s2: "Status (exampleStore ! 2) = statusOpen" by code_simp
  have f: "writeFails exampleWorld = None" by code_simp
  have u: "exampleStore[2 := (exampleStore ! 2)\<lparr>Status := statusClosed\<rparr>] =
     [exampleStore ! 0, exampleStore ! 1,
      \<lparr>ID = 4, Title = ''write docs'', Status = ''closed'', Labels = [],
       CreatedAt = 1700000200\<rparr>]"
    by code_simp
  show ?thesis
    using closeIssue_frame [OF a2 l k1] closeIssue_frame [OF a4 l k2] a2 a4 l s1 s2 f u
    by simp
qed

section \<open>Exporting\<close>

text \<open>
  C9. For every format other than \<^verbatim>\<open>markdown\<close> and \<^verbatim>\<open>json\<close>, \<open>publishIssues\<close> leaves
  the environment as it was, and on a store that loads it fails with
  \<open>UnsupportedFormat\<close> carrying the format given. The store is loaded before the format
  is looked at, so a store that does not load fails with the loading error.
\<close>

theorem publishIssues_unsupported_format:
  assumes "format \<noteq> ''markdown''" and "format \<noteq> ''json''"
  shows "snd (publishIssues format w) = w \<and>
         (\<forall>issues. loadIssues w = Inr issues \<longrightarrow>
            publishIssues format w = (Inl (UnsupportedFormat format), w)) \<and>
         (\<forall>e. loadIssues w = Inl e \<longrightarrow> publishIssues format w = (Inl e, w))"
  using assms by (auto simp: publishIssues_def split: sum.splits)

theorem publishIssues_unsupported_format_witness:
  "''xml'' \<noteq> ''markdown'' \<and> ''xml'' \<noteq> ''json'' \<and>
   loadIssues exampleWorld = Inr exampleStore \<and>
   publishIssues ''xml'' exampleWorld = (Inl (UnsupportedFormat ''xml''), exampleWorld)"
proof -
  have m: "''xml'' \<noteq> ''markdown''" by simp
  have j: "''xml'' \<noteq> ''json''" by simp
  have l: "loadIssues exampleWorld = Inr exampleStore" by code_simp
  show ?thesis using publishIssues_unsupported_format [OF m j, of exampleWorld] l by simp
qed

section \<open>Publishing to the remote service\<close>

lemma push_loop_world:
  "snd (push_loop c issues w) =
     w\<lparr>remoteCalls := remoteCalls w @ map (createCall c) (filter (\<lambda>i. Status i = statusOpen) issues)\<rparr>"
proof (induction issues arbitrary: w)
  case Nil
  then show ?case by simp
next
  case (Cons x xs)
  show ?case
  proof (cases "Status x = statusOpen")
    case True
    let ?w1 = "w\<lparr>remoteCalls := remoteCalls w @ [createCall c x]\<rparr>"
    have "snd (push_loop c (x # xs) w) = snd (push_loop c xs ?w1)"
      using True by (simp add: Let_def split: prod.splits)
    also have "\<dots> = ?w1\<lparr>remoteCalls := remoteCalls ?w1 @
        map (createCall c) (filter (\<lambda>i. Status i = statusOpen) xs)\<rparr>"
      by (rule Cons.IH)
    finally show ?thesis using True by simp
  next
    case False
    then show ?thesis using Cons.IH [of w] by simp
  qed
qed

lemma push_loop_events:
  "length (fst (push_loop c issues w)) = length (filter (\<lambda>i. Status i = statusOpen) issues)"
proof (induction issues arbitrary: w)
  case Nil
  then show ?case by simp
next
  case (Cons x xs)
  show ?case
  proof (cases "Status x = statusOpen")
    case True
    let ?w1 = "w\<lparr>remoteCalls := remoteCalls w @ [createCall c x]\<rparr>"
    have "length (fst (push_loop c (x # xs) w)) = Suc (length (fst (push_loop c xs ?w1)))"
      using True by (simp add: Let_def split: prod.splits)
    then show ?thesis using True Cons.IH [of ?w1] by simp
  next
    case False
    then show ?thesis using Cons.IH [of w] by simp
  qed
qed

lemma pushToGithub_world:
  assumes "resolveCredentials w = Inr c" and "loadIssues w = Inr issues"
  shows "snd (pushToGithub w) =
     w\<lparr>remoteCalls := remoteCalls w @ map (createCall c) (filter (\<lambda>i. Status i = statusOpen) issues),
        dbFile := (case writeFails w of None \<Rightarrow> Stored [] | Some d \<Rightarrow> d),
        writes := writes w @ [[]]\<rparr>"
proof -
  obtain events w1 where pl: "push_loop c issues w = (events, w1)"
    by (cases "push_loop c issues w")
  have w1: "w1 = w\<lparr>remoteCalls := remoteCalls w @
      map (createCall c) (filter (\<lambda>i. Status i = statusOpen) issues)\<rparr>"
    using push_loop_world [of c issues w] pl by simp
  have root: "repoRoot w \<noteq> None"
    using assms(2) by (auto simp: loadIssues_def getDBPath_def split: option.splits)
  show ?thesis
    using assms pl w1 root
    by (auto simp: pushToGithub_def saveIssues_def getDBPath_def split: option.splits)
qed

lemma loadIssues_after_push:
  assumes "resolveCredentials w = Inr c" and "loadIssues w = Inr issues" and "writeFails w = None"
  shows "loadIssues (snd (pushToGithub w)) = Inr []"
proof -
  have root: "repoRoot w \<noteq> None"
    using assms(2) by (auto simp: loadIssues_def getDBPath_def split: option.splits)
  show ?thesis
    using root assms(3)
    by (auto simp: pushToGithub_world [OF assms(1,2)] loadIssues_def getDBPath_def)
qed

text \<open>
  C1. Once the credentials are resolved and the store is loaded, \<open>pushToGithub\<close> calls
  the remote creation once for every open issue, in store order, whatever the earlier
  calls returned; afterwards it hands the empty collection to the file write, whatever
  the calls returned; when that write succeeds the file holds the empty collection and
  the report has one event per open issue.
\<close>

theorem pushToGithub_batch:
  assumes "resolveCredentials w = Inr c" and "loadIssues w = Inr issues"
  shows "remoteCalls (snd (pushToGithub w)) =
           remoteCalls w @ map (createCall c) (filter (\<lambda>i. Status i = statusOpen) issues) \<and>
         writes (snd (pushToGithub w)) = writes w @ [[]] \<and>
         (writeFails w = None \<longrightarrow>
            dbFile (snd (pushToGithub w)) = Stored [] \<and>
            (\<exists>events. fst (pushToGithub w) =
                 Inr \<lparr>pushEvents = events, pushCount = length (filter isSuccess events)\<rparr> \<and>
               length events = length (filter (\<lambda>i. Status i = statusOpen) issues)))"
proof -
  obtain events w1 where pl: "push_loop c issues w = (events, w1)"
    by (cases "push_loop c issues w")
  have w1: "w1 = w\<lparr>remoteCalls := remoteCalls w @
      map (createCall c) (filter (\<lambda>i. Status i = statusOpen) issues)\<rparr>"
    using push_loop_world [of c issues w] pl by simp
  have ev: "length events = length (filter (\<lambda>i. Status i = statusOpen) issues)"
    using push_loop_events [of c issues w] pl by simp
  have root: "repoRoot w \<noteq> None"
    using assms(2) by (auto simp: loadIssues_def getDBPath_def split: option.splits)
  show ?thesis
    using assms pl w1 ev root
    by (auto simp: pushToGithub_def saveIssues_def getDBPath_def split: option.splits)
qed

theorem pushToGithub_batch_witness:
  "resolveCredentials exampleWorld = Inr exampleCredentials \<and>
   loadIssues exampleWorld = Inr exampleStore \<and>
   writeFails exampleWorld = None \<and>
   remoteCalls (snd (pushToGithub exampleWorld)) =
     [\<lparr>callToken = ''gho_secret'', callOwner = ''octocat'', callRepo = ''hello'',
       callTitle = ''BUG: crash on save'', callLabels = [''bug'']\<rparr>,
      \<lparr>callToken = ''gho_secret'', callOwner = ''octocat'', callRepo = ''hello'',
       callTitle = ''write docs'', callLabels = []\<rparr>] \<and>
   fst (pushToGithub exampleWorld) =
     Inr \<lparr>pushEvents = [CreateSuccess ''BUG: crash on save'', CreateError 4], pushCount = 1\<rparr> \<and>
   writes (snd (pushToGithub exampleWorld)) = [[]] \<and>
   dbFile (snd (pushToGithub exampleWorld)) = Stored []"
proof -
  have c: "resolveCredentials exampleWorld = Inr exampleCredentials" by code_simp
  have l: "loadIssues exampleWorld = Inr exampleStore" by code_simp
  have f: "writeFails exampleWorld = None" by code_simp
  have r: "remoteCalls exampleWorld @
        map (createCall exampleCredentials) (filter (\<lambda>i. Status i = statusOpen) exampleStore) =
     [\<lparr>callToken = ''gho_secret'', callOwner = ''octocat'', callRepo = ''hello'',
       callTitle = ''BUG: crash on save'', callLabels = [''bug'']\<rparr>,
      \<lparr>callToken = ''gho_secret'', callOwner = ''octocat'', callRepo = ''hello'',
       callTitle = ''write docs'', callLabels = []\<rparr>]"
    by code_simp
  have w: "writes exampleWorld @ [[]] = [[]]" by code_simp
  have e: "fst (pushToGithub exampleWorld) =
     Inr \<lparr>pushEvents = [CreateSuccess ''BUG: crash on save'', CreateError 4], pushCount = 1\<rparr>"
    by code_simp
  show ?thesis
    using pushToGithub_batch [OF c l] c l f r w e by simp
qed

text \<open>
  C7. The values of the \<^verbatim>\<open>gh\<close> commands are used exactly when owner, repository and
  token are all non-empty. Otherwise all three values are read from the environment
  variables; if any of them is empty the command fails with
  \<open>CredentialsUnavailable\<close>, at once and with the environment as it was.
\<close>

theorem resolveCredentials_two_tier:
  "(fst (ghOwnerRepo w) \<noteq> [] \<and> snd (ghOwnerRepo w) \<noteq> [] \<and> ghToken w \<noteq> [] \<longrightarrow>
      resolveCredentials w =
        Inr \<lparr>credTier = GhCli, credToken = ghToken w,
             credOwner = fst (ghOwnerRepo w), credRepo = snd (ghOwnerRepo w)\<rparr>) \<and>
   (\<not> (fst (ghOwnerRepo w) \<noteq> [] \<and> snd (ghOwnerRepo w) \<noteq> [] \<and> ghToken w \<noteq> []) \<longrightarrow>
      (getenv w ''GITHUB_TOKEN'' \<noteq> [] \<and> getenv w ''GITHUB_OWNER'' \<noteq> [] \<and>
       getenv w ''GITHUB_REPO'' \<noteq> [] \<longrightarrow>
         resolveCredentials w =
           Inr \<lparr>credTier = Environment, credToken = getenv w ''GITHUB_TOKEN'',
                credOwner = getenv w ''GITHUB_OWNER'', credRepo = getenv w ''GITHUB_REPO''\<rparr>) \<and>
      (getenv w ''GITHUB_TOKEN'' = [] \<or> getenv w ''GITHUB_OWNER'' = [] \<or>
       getenv w ''GITHUB_REPO'' = [] \<longrightarrow>
         resolveCredentials w = Inl CredentialsUnavailable \<and>
         pushToGithub w = (Inl CredentialsUnavailable, w)))"
  by (auto simp: resolveCredentials_def pushToGithub_def Let_def split: prod.splits)

theorem resolveCredentials_two_tier_witness:
  "fst (ghOwnerRepo exampleWorld) = ''octocat'' \<and> snd (ghOwnerRepo exampleWorld) = ''hello'' \<and>
   ghToken exampleWorld = ''gho_secret'' \<and>
   resolveCredentials exampleWorld =
     Inr \<lparr>credTier = GhCli, credToken = ''gho_secret'', credOwner = ''octocat'',
          credRepo = ''hello''\<rparr> \<and>
   ghToken (exampleWorld\<lparr>ghAuthToken := None\<rparr>) = [] \<and>
   getenv (exampleWorld\<lparr>ghAuthToken := None\<rparr>) ''GITHUB_TOKEN'' = [] \<and>
   resolveCredentials (exampleWorld\<lparr>ghAuthToken := None\<rparr>) = Inl CredentialsUnavailable \<and>
   pushToGithub (exampleWorld\<lparr>ghAuthToken := None\<rparr>) =
     (Inl CredentialsUnavailable, exampleWorld\<lparr>ghAuthToken := None\<rparr>)"
proof -
  have o: "fst (ghOwnerRepo exampleWorld) = ''octocat''" by code_simp
  have r: "snd (ghOwnerRepo exampleWorld) = ''hello''" by code_simp
  have t: "ghToken exampleWorld = ''gho_secret''" by code_simp
  have t': "ghToken (exampleWorld\<lparr>ghAuthToken := None\<rparr>) = []" by code_simp
  have e: "getenv (exampleWorld\<lparr>ghAuthToken := None\<rparr>) ''GITHUB_TOKEN'' = []" by code_simp
  show ?thesis
    using resolveCredentials_two_tier [of exampleWorld]
      resolveCredentials_two_tier [of "exampleWorld\<lparr>ghAuthToken := None\<rparr>"] o r t t' e
    by simp
qed

section \<open>Adding an issue\<close>

lemma sint_maxID_step:
  "sint (if m <s x then x else m) = max (sint m) (sint (x :: go_int))"
  by (auto simp: word_sless_alt)

lemma sint_maxID_loop:
  "sint (maxID_loop m issues) = Max (insert (sint m) ((\<lambda>i. sint (ID i)) ` set issues))"
proof (induction issues arbitrary: m)
  case Nil
  then show ?case by simp
next
  case (Cons x xs)
  have "sint (maxID_loop m (x # xs)) =
        Max (insert (max (sint m) (sint (ID x))) ((\<lambda>i. sint (ID i)) ` set xs))"
    by (simp only: maxID_loop.simps Cons.IH sint_maxID_step)
  also have "\<dots> = Max (insert (sint m) ((\<lambda>i. sint (ID i)) ` set (x # xs)))"
  proof (cases "set xs = {}")
    case True
    then show ?thesis by (simp add: max.commute)
  next
    case False
    then show ?thesis by (simp add: max.assoc max.commute max.left_commute)
  qed
  finally show ?case .
qed

lemma sint_succ_go_int:
  assumes "sint (x :: go_int) < 2 ^ 63 - 1"
  shows "sint (x + 1) = sint x + 1"
proof -
  have lo: "- (2 ^ 63) \<le> sint x" using sint_ge [of x] by simp
  have "sint (x + 1) = signed_take_bit 63 (sint x + 1)"
    by (simp add: sint_word_ariths)
  also have "\<dots> = sint x + 1"
    using assms lo by (intro signed_take_bit_int_eq_self) auto
  finally show ?thesis .
qed

lemma sint_succ_wrap_go_int:
  assumes "sint (x :: go_int) = 2 ^ 63 - 1"
  shows "sint (x + 1) = - (2 ^ 63)"
proof -
  have "sint (x + 1) = signed_take_bit 63 (sint x + 1)"
    by (simp add: sint_word_ariths)
  also have "\<dots> = signed_take_bit 63 (2 ^ 63 :: int)"
    using assms by simp
  also have "\<dots> = - (2 ^ 63)"
    by (simp add: signed_take_bit_eq_take_bit_shift take_bit_eq_mod)
  finally show ?thesis .
qed

lemma addIssue_unfold:
  assumes "title \<noteq> []" and "loadIssues w = Inr issues"
  shows "addIssue title w =
     (case writeFails w of
        None \<Rightarrow> (Inr (newIssue title issues w),
                  w\<lparr>dbFile := Stored (issues @ [newIssue title issues w]),
                    writes := writes w @ [issues @ [newIssue title issues w]]\<rparr>)
      | Some d \<Rightarrow> (Inl StoreUnwritable,
                  w\<lparr>dbFile := d, writes := writes w @ [issues @ [newIssue title issues w]]\<rparr>))"
proof -
  have root: "repoRoot w \<noteq> None"
    using assms(2) by (auto simp: loadIssues_def getDBPath_def split: option.splits)
  show ?thesis
    using assms root
    by (auto simp: addIssue_def newIssue_def saveIssues_def getDBPath_def Let_def
             split: option.splits)
qed

lemma ID_newIssue: "ID (newIssue title issues w) = maxID_loop 0 issues + 1"
  by (simp add: newIssue_def autoLabel_def)

lemma Status_newIssue: "Status (newIssue title issues w) = statusOpen"
  by (simp add: newIssue_def autoLabel_def)

lemma Labels_newIssue:
  "distinct (Labels (newIssue title issues w)) \<and> sorted (Labels (newIssue title issues w))"
  unfolding newIssue_def by (intro conjI autoLabel_distinct autoLabel_sorted) simp

lemma sint_maxID_ge:
  "0 \<le> sint (maxID_loop 0 issues) \<and> (\<forall>i \<in> set issues. sint (ID i) \<le> sint (maxID_loop 0 issues))"
  by (simp add: sint_maxID_loop)

lemma sint_new_id:
  assumes "\<forall>i \<in> set issues. sint (ID i) < 2 ^ 63 - 1"
  shows "sint (maxID_loop 0 issues + 1) = 1 + Max (insert 0 ((\<lambda>i. sint (ID i)) ` set issues))"
proof -
  have "Max (insert 0 ((\<lambda>i. sint (ID i)) ` set issues)) < 2 ^ 63 - 1"
    using assms by (subst Max_less_iff) auto
  then have "sint (maxID_loop 0 issues) < 2 ^ 63 - 1"
    by (simp add: sint_maxID_loop)
  from sint_succ_go_int [OF this] show ?thesis
    by (simp add: sint_maxID_loop)
qed

lemma new_id_fresh_bounded:
  assumes "\<forall>i \<in> set issues. sint (ID i) < 2 ^ 63 - 1"
  shows "maxID_loop 0 issues + 1 \<notin> ID ` set issues"
proof
  assume "maxID_loop 0 issues + 1 \<in> ID ` set issues"
  then obtain i where i: "i \<in> set issues" "ID i = maxID_loop 0 issues + 1" by auto
  have "sint (ID i) \<le> Max (insert 0 ((\<lambda>i. sint (ID i)) ` set issues))"
    using i(1) by (intro Max_ge) auto
  then show False using sint_new_id [OF assms] i(2) by simp
qed

text \<open>
  C2, as the code has it. For a non-empty title and a loaded store in which no id is
  \<open>2^63 - 1\<close>, the id of the added issue is one plus the larger of 0 and the maximum
  id of the store: one plus the maximum id when the store holds a non-negative id, and 1
  for the empty store. It differs from every id in the store. After \<open>pushToGithub\<close> has
  cleared the store the next id is 1 again.
\<close>

theorem addIssue_next_id:
  assumes "title \<noteq> []" and "loadIssues w = Inr issues"
    and "\<forall>i \<in> set issues. sint (ID i) < 2 ^ 63 - 1"
  shows "\<exists>n. writes (snd (addIssue title w)) = writes w @ [issues @ [n]] \<and>
           (writeFails w = None \<longrightarrow>
              fst (addIssue title w) = Inr n \<and>
              dbFile (snd (addIssue title w)) = Stored (issues @ [n])) \<and>
           sint (ID n) = 1 + Max (insert 0 ((\<lambda>i. sint (ID i)) ` set issues)) \<and>
           ((\<exists>i \<in> set issues. 0 \<le> sint (ID i)) \<longrightarrow>
              sint (ID n) = 1 + Max ((\<lambda>i. sint (ID i)) ` set issues)) \<and>
           (issues = [] \<longrightarrow> ID n = 1) \<and>
           ID n \<notin> ID ` set issues \<and>
           (\<forall>c (t2 :: string). resolveCredentials w = Inr c \<longrightarrow> writeFails w = None \<longrightarrow> t2 \<noteq> [] \<longrightarrow>
              map_sum (\<lambda>e. e) ID (fst (addIssue t2 (snd (pushToGithub w)))) = Inr 1)"
proof -
  let ?n = "newIssue title issues w"
  have a: "writes (snd (addIssue title w)) = writes w @ [issues @ [?n]]"
    by (simp add: addIssue_unfold [OF assms(1,2)] split: option.splits)
  have b: "writeFails w = None \<longrightarrow>
              fst (addIssue title w) = Inr ?n \<and>
              dbFile (snd (addIssue title w)) = Stored (issues @ [?n])"
    by (simp add: addIssue_unfold [OF assms(1,2)])
  have c: "sint (ID ?n) = 1 + Max (insert 0 ((\<lambda>i. sint (ID i)) ` set issues))"
    by (simp add: ID_newIssue sint_new_id [OF assms(3)])
  have d: "(\<exists>i \<in> set issues. 0 \<le> sint (ID i)) \<longrightarrow>
              sint (ID ?n) = 1 + Max ((\<lambda>i. sint (ID i)) ` set issues)"
  proof
    assume "\<exists>i \<in> set issues. 0 \<le> sint (ID i)"
    then obtain i where i: "i \<in> set issues" "0 \<le> sint (ID i)" by blast
    have "sint (ID i) \<le> Max ((\<lambda>i. sint (ID i)) ` set issues)"
      using i(1) by (intro Max_ge) auto
    then have "0 \<le> Max ((\<lambda>i. sint (ID i)) ` set issues)" using i(2) by simp
    moreover have "set issues \<noteq> {}" using i(1) by auto
    ultimately have "Max (insert 0 ((\<lambda>i. sint (ID i)) ` set issues)) =
        Max ((\<lambda>i. sint (ID i)) ` set issues)"
      by (simp add: max_def)
    then show "sint (ID ?n) = 1 + Max ((\<lambda>i. sint (ID i)) ` set issues)"
      using c by simp
  qed
  have e: "issues = [] \<longrightarrow> ID ?n = 1"
    by (simp add: ID_newIssue)
  have f: "ID ?n \<notin> ID ` set issues"
    using new_id_fresh_bounded [OF assms(3)] by (simp add: ID_newIssue)
  have g: "\<forall>c (t2 :: string). resolveCredentials w = Inr c \<longrightarrow> writeFails w = None \<longrightarrow> t2 \<noteq> [] \<longrightarrow>
              map_sum (\<lambda>e. e) ID (fst (addIssue t2 (snd (pushToGithub w)))) = Inr 1"
  proof (intro allI impI)
    fix c :: credentials and t2 :: string
    assume h: "resolveCredentials w = Inr c" "writeFails w = None" "t2 \<noteq> []"
    have l: "loadIssues (snd (pushToGithub w)) = Inr []"
      by (rule loadIssues_after_push [OF h(1) assms(2) h(2)])
    have wf: "writeFails (snd (pushToGithub w)) = None"
      using h(2) by (simp add: pushToGithub_world [OF h(1) assms(2)])
    show "map_sum (\<lambda>e. e) ID (fst (addIssue t2 (snd (pushToGithub w)))) = Inr 1"
      by (simp add: addIssue_unfold [OF h(3) l] wf ID_newIssue)
  qed
  show ?thesis by (rule exI [of _ ?n]) (intro conjI a b c d e f g)
qed

theorem addIssue_next_id_witness:
  "''chore: tidy'' \<noteq> [] \<and> loadIssues exampleWorld = Inr exampleStore \<and>
   list_all (\<lambda>i. sint (ID i) < 2 ^ 63 - 1) exampleStore \<and>
   fst (addIssue ''chore: tidy'' exampleWorld) =
     Inr \<lparr>ID = 5, Title = ''chore: tidy'', Status = ''open'', Labels = [''chore''],
          CreatedAt = 1700000300\<rparr> \<and>
   (\<exists>n. writes (snd (addIssue ''chore: tidy'' exampleWorld)) =
          writes exampleWorld @ [exampleStore @ [n]] \<and>
        sint (ID n) = 1 + Max ((\<lambda>i. sint (ID i)) ` set exampleStore) \<and>
        ID n \<notin> ID ` set exampleStore)"
proof -
  have t: "''chore: tidy'' \<noteq> []" by simp
  have l: "loadIssues exampleWorld = Inr exampleStore" by code_simp
  have b: "\<forall>i \<in> set exampleStore. sint (ID i) < 2 ^ 63 - 1"
    by (simp add: exampleStore_def)
  have p: "\<exists>i \<in> set exampleStore. 0 \<le> sint (ID i)"
    by (simp add: exampleStore_def)
  have v: "fst (addIssue ''chore: tidy'' exampleWorld) =
     Inr \<lparr>ID = 5, Title = ''chore: tidy'', Status = ''open'', Labels = [''chore''],
          CreatedAt = 1700000300\<rparr>"
    by code_simp
  have b': "list_all (\<lambda>i. sint (ID i) < 2 ^ 63 - 1) exampleStore"
    using b by (simp add: list_all_iff)
  show ?thesis
    using addIssue_next_id [OF t l b] t l b' p v by blast
qed

text \<open>
  At the id \<open>2^63 - 1\<close> the addition wraps and the new id is \<open>- 2^63\<close>; and the id 1,
  given to an issue of an empty store, is given again to the first issue added after the
  store has been cleared.
\<close>

theorem addIssue_next_id_counterexample:
  "fst (addIssue ''next''
          (exampleWorld\<lparr>dbFile := Stored
             [\<lparr>ID = 9223372036854775807, Title = ''last'', Status = ''open'', Labels = [],
               CreatedAt = 0\<rparr>]\<rparr>)) =
     Inr \<lparr>ID = - 9223372036854775808, Title = ''next'', Status = ''open'', Labels = [],
          CreatedAt = 1700000300\<rparr> \<and>
   sint (9223372036854775807 :: go_int) = 9223372036854775807 \<and>
   sint (- 9223372036854775808 :: go_int) = - 9223372036854775808 \<and>
   map_sum id ID (fst (addIssue ''first'' (exampleWorld\<lparr>dbFile := Missing\<rparr>))) = Inr 1 \<and>
   dbFile (snd (pushToGithub (snd (addIssue ''first'' (exampleWorld\<lparr>dbFile := Missing\<rparr>))))) =
     Stored [] \<and>
   map_sum id ID
     (fst (addIssue ''second''
        (snd (pushToGithub (snd (addIssue ''first'' (exampleWorld\<lparr>dbFile := Missing\<rparr>))))))) =
     Inr 1"
  by code_simp

section \<open>The invariants of the store\<close>

lemma loadIssues_root: "loadIssues w = Inr issues \<Longrightarrow> repoRoot w \<noteq> None"
  by (auto simp: loadIssues_def getDBPath_def split: option.splits)

lemma storeInvariant_Nil: "storeInvariant []"
  by (simp add: storeInvariant_def)

lemma storeInvariant_close:
  assumes "storeInvariant issues" and "k < length issues"
  shows "storeInvariant (issues[k := (issues ! k)\<lparr>Status := statusClosed\<rparr>])"
proof -
  let ?x = "(issues ! k)\<lparr>Status := statusClosed\<rparr>"
  have ids: "map ID (issues[k := ?x]) = map ID issues"
    using assms(2) by (simp add: map_update list_update_same_conv)
  have xk: "issues ! k \<in> set issues" using assms(2) by simp
  have st: "list_all (\<lambda>i. Status i = statusOpen \<or> Status i = statusClosed) (issues[k := ?x])"
    unfolding list_all_iff
  proof
    fix i assume "i \<in> set (issues[k := ?x])"
    then have "i = ?x \<or> i \<in> set issues"
      using set_update_subset_insert [of issues k ?x] by auto
    then show "Status i = statusOpen \<or> Status i = statusClosed"
      using assms(1) by (auto simp: storeInvariant_def list_all_iff)
  qed
  have lb: "list_all (\<lambda>i. distinct (Labels i) \<and> sorted (Labels i)) (issues[k := ?x])"
    unfolding list_all_iff
  proof
    fix i assume "i \<in> set (issues[k := ?x])"
    then have "i = ?x \<or> i \<in> set issues"
      using set_update_subset_insert [of issues k ?x] by auto
    then show "distinct (Labels i) \<and> sorted (Labels i)"
      using assms(1) xk by (auto simp: storeInvariant_def list_all_iff)
  qed
  show ?thesis
    unfolding storeInvariant_def ids
    using assms(1) st lb by (simp add: storeInvariant_def)
qed

lemma storeInvariant_snoc:
  assumes "storeInvariant issues"
  shows "storeInvariant (issues @ [newIssue title issues w]) \<longleftrightarrow>
         maxID_loop 0 issues + 1 \<notin> ID ` set issues"
  using assms Labels_newIssue [of title issues w]
  by (auto simp: storeInvariant_def ID_newIssue Status_newIssue)

lemma new_id_taken_iff:
  "maxID_loop 0 issues + 1 \<in> ID ` set issues \<longleftrightarrow>
     (\<exists>i \<in> set issues. sint (ID i) = 2 ^ 63 - 1) \<and> (\<exists>i \<in> set issues. sint (ID i) = - (2 ^ 63))"
proof
  assume taken: "maxID_loop 0 issues + 1 \<in> ID ` set issues"
  have "\<not> (\<forall>i \<in> set issues. sint (ID i) < 2 ^ 63 - 1)"
    using new_id_fresh_bounded taken by blast
  then obtain i where i: "i \<in> set issues" "\<not> sint (ID i) < 2 ^ 63 - 1" by blast
  have "sint (ID i) < 2 ^ 63" using sint_lt [of "ID i"] by simp
  then have top: "sint (ID i) = 2 ^ 63 - 1" using i(2) by simp
  have "sint (ID i) \<le> sint (maxID_loop 0 issues)" using sint_maxID_ge i(1) by blast
  moreover have "sint (maxID_loop 0 issues) < 2 ^ 63"
    using sint_lt [of "maxID_loop 0 issues"] by simp
  ultimately have "sint (maxID_loop 0 issues) = 2 ^ 63 - 1" using top by simp
  then have w: "sint (maxID_loop 0 issues + 1) = - (2 ^ 63)" by (rule sint_succ_wrap_go_int)
  obtain j where j: "j \<in> set issues" "ID j = maxID_loop 0 issues + 1" using taken by auto
  have "sint (ID j) = - (2 ^ 63)" using w j(2) by simp
  then show "(\<exists>i \<in> set issues. sint (ID i) = 2 ^ 63 - 1) \<and>
             (\<exists>i \<in> set issues. sint (ID i) = - (2 ^ 63))"
    using i(1) top j(1) by blast
next
  assume "(\<exists>i \<in> set issues. sint (ID i) = 2 ^ 63 - 1) \<and>
          (\<exists>i \<in> set issues. sint (ID i) = - (2 ^ 63))"
  then obtain i j where i: "i \<in> set issues" "sint (ID i) = 2 ^ 63 - 1"
    and j: "j \<in> set issues" "sint (ID j) = - (2 ^ 63)" by blast
  have "sint (ID i) \<le> sint (maxID_loop 0 issues)" using sint_maxID_ge i(1) by blast
  moreover have "sint (maxID_loop 0 issues) < 2 ^ 63"
    using sint_lt [of "maxID_loop 0 issues"] by simp
  ultimately have "sint (maxID_loop 0 issues) = 2 ^ 63 - 1" using i(2) by simp
  then have "sint (maxID_loop 0 issues + 1) = - (2 ^ 63)" by (rule sint_succ_wrap_go_int)
  then have "sint (ID j) = sint (maxID_loop 0 issues + 1)" using j(2) by simp
  then have "ID j = maxID_loop 0 issues + 1" by (rule signed_word_eqI)
  then show "maxID_loop 0 issues + 1 \<in> ID ` set issues" using j(1) by force
qed

lemma writesValid_same: "writes w' = writes w \<Longrightarrow> writesValid w w'"
  by (simp add: writesValid_def)

lemma writesValid_append:
  "writes w' = writes w @ [s] \<Longrightarrow> writesValid w w' = storeInvariant s"
  by (simp add: writesValid_def)

lemma closeIssue_world:
  assumes "loadIssues w = Inr issues"
  shows "snd (closeIssue idStr w) = w \<or>
         (\<exists>k < length issues.
            snd (closeIssue idStr w) =
              w\<lparr>dbFile := (case writeFails w of
                              None \<Rightarrow> Stored (issues[k := (issues ! k)\<lparr>Status := statusClosed\<rparr>])
                            | Some d \<Rightarrow> d),
                 writes := writes w @ [issues[k := (issues ! k)\<lparr>Status := statusClosed\<rparr>]]\<rparr>)"
proof (cases "Atoi idStr")
  case None
  then show ?thesis by (simp add: closeIssue_def)
next
  case (Some n)
  have root: "repoRoot w \<noteq> None" using loadIssues_root [OF assms] .
  show ?thesis
  proof (cases "closeIssue_loop n issues")
    case AlreadyClosed
    then show ?thesis using Some assms by (simp add: closeIssue_def)
  next
    case NotFound
    then show ?thesis using Some assms by (simp add: closeIssue_def)
  next
    case (Found issues')
    from closeIssue_loop_Found [OF this] obtain k where
      k: "k < length issues" "issues' = issues[k := (issues ! k)\<lparr>Status := statusClosed\<rparr>]"
      by blast
    have "snd (closeIssue idStr w) =
          w\<lparr>dbFile := (case writeFails w of None \<Rightarrow> Stored issues' | Some d \<Rightarrow> d),
            writes := writes w @ [issues']\<rparr>"
      using Some assms Found root
      by (auto simp: closeIssue_def saveIssues_def getDBPath_def split: option.splits)
    then show ?thesis using k by blast
  qed
qed

lemma closeIssue_keeps:
  assumes "loadIssues w = Inr issues" and "storeInvariant issues"
  shows "writesValid w (snd (closeIssue idStr w))"
proof -
  from closeIssue_world [OF assms(1), of idStr]
  consider (same) "snd (closeIssue idStr w) = w"
    | (saved) k where "k < length issues"
        "snd (closeIssue idStr w) =
              w\<lparr>dbFile := (case writeFails w of
                              None \<Rightarrow> Stored (issues[k := (issues ! k)\<lparr>Status := statusClosed\<rparr>])
                            | Some d \<Rightarrow> d),
                 writes := writes w @ [issues[k := (issues ! k)\<lparr>Status := statusClosed\<rparr>]]\<rparr>"
    by blast
  then show ?thesis
  proof cases
    case same
    then show ?thesis by (simp add: writesValid_same)
  next
    case saved
    have inv: "storeInvariant (issues[k := (issues ! k)\<lparr>Status := statusClosed\<rparr>])"
      by (rule storeInvariant_close [OF assms(2) saved(1)])
    have wr: "writes (snd (closeIssue idStr w)) =
        writes w @ [issues[k := (issues ! k)\<lparr>Status := statusClosed\<rparr>]]"
      by (simp add: saved(2))
    show ?thesis using writesValid_append [OF wr] inv by simp
  qed
qed

lemma pushToGithub_keeps:
  assumes "loadIssues w = Inr issues"
  shows "writesValid w (snd (pushToGithub w))"
proof (cases "resolveCredentials w")
  case (Inl e)
  then have "snd (pushToGithub w) = w" by (simp add: pushToGithub_def)
  then show ?thesis by (simp add: writesValid_same)
next
  case (Inr c)
  have wr: "writes (snd (pushToGithub w)) = writes w @ [[]]"
    by (simp add: pushToGithub_world [OF Inr assms(1)])
  show ?thesis using writesValid_append [OF wr] storeInvariant_Nil by simp
qed

lemma addIssue_keeps_iff:
  assumes "loadIssues w = Inr issues" and "storeInvariant issues"
  shows "writesValid w (snd (addIssue title w)) \<longleftrightarrow>
         title = [] \<or>
         \<not> ((\<exists>i \<in> set issues. sint (ID i) = 2 ^ 63 - 1) \<and>
            (\<exists>i \<in> set issues. sint (ID i) = - (2 ^ 63)))"
proof (cases "title = []")
  case True
  then have "snd (addIssue title w) = w" by (simp add: addIssue_def)
  then show ?thesis using True by (simp add: writesValid_same)
next
  case False
  have wr: "writes (snd (addIssue title w)) = writes w @ [issues @ [newIssue title issues w]]"
    by (simp add: addIssue_unfold [OF False assms(1)] split: option.splits)
  have "writesValid w (snd (addIssue title w)) \<longleftrightarrow>
        maxID_loop 0 issues + 1 \<notin> ID ` set issues"
    using writesValid_append [OF wr] storeInvariant_snoc [OF assms(2)] by simp
  then show ?thesis using False new_id_taken_iff [of issues] by simp
qed

text \<open>
  C5, as the code has it. For every loaded store with distinct ids, statuses \<^verbatim>\<open>open\<close>
  or \<^verbatim>\<open>closed\<close> and label lists that are duplicate-free and sorted, every collection that
  \<open>closeIssue\<close> or \<open>pushToGithub\<close> saves satisfies these invariants again, and so does
  every collection that \<open>addIssue\<close> saves, except when the store holds both the id
  \<open>2^63 - 1\<close> and the id \<open>- 2^63\<close>: exactly then the added issue gets an id that is
  already in the store.
\<close>

theorem persisting_keeps_invariants:
  assumes "loadIssues w = Inr issues" and "storeInvariant issues"
  shows "writesValid w (snd (closeIssue idStr w)) \<and>
         writesValid w (snd (pushToGithub w)) \<and>
         (writesValid w (snd (addIssue title w)) \<longleftrightarrow>
            title = [] \<or>
            \<not> ((\<exists>i \<in> set issues. sint (ID i) = 2 ^ 63 - 1) \<and>
               (\<exists>i \<in> set issues. sint (ID i) = - (2 ^ 63))))"
  using closeIssue_keeps [OF assms, of idStr] pushToGithub_keeps [OF assms(1)]
    addIssue_keeps_iff [OF assms, of title]
  by (intro conjI)

theorem persisting_keeps_invariants_witness:
  "loadIssues exampleWorld = Inr exampleStore \<and> storeInvariant exampleStore \<and>
   \<not> list_ex (\<lambda>i. sint (ID i) = 2 ^ 63 - 1) exampleStore \<and>
   writes (snd (addIssue ''chore: tidy'' exampleWorld)) =
     [exampleStore @
      [\<lparr>ID = 5, Title = ''chore: tidy'', Status = ''open'', Labels = [''chore''],
        CreatedAt = 1700000300\<rparr>]] \<and>
   writesValid exampleWorld (snd (addIssue ''chore: tidy'' exampleWorld)) \<and>
   writes (snd (closeIssue ''4'' exampleWorld)) =
     [exampleStore[2 := (exampleStore ! 2)\<lparr>Status := ''closed''\<rparr>]] \<and>
   writesValid exampleWorld (snd (closeIssue ''4'' exampleWorld)) \<and>
   writes (snd (pushToGithub exampleWorld)) = [[]] \<and>
   writesValid exampleWorld (snd (pushToGithub exampleWorld))"
proof -
  have l: "loadIssues exampleWorld = Inr exampleStore" by code_simp
  have i: "storeInvariant exampleStore" by code_simp
  have n: "\<not> (\<exists>i \<in> set exampleStore. sint (ID i) = 2 ^ 63 - 1)"
    by (simp add: exampleStore_def)
  have n': "\<not> list_ex (\<lambda>i. sint (ID i) = 2 ^ 63 - 1) exampleStore"
    using n by (simp add: list_ex_iff)
  have a: "writes (snd (addIssue ''chore: tidy'' exampleWorld)) =
     [exampleStore @
      [\<lparr>ID = 5, Title = ''chore: tidy'', Status = ''open'', Labels = [''chore''],
        CreatedAt = 1700000300\<rparr>]]"
    by code_simp
  have c: "writes (snd (closeIssue ''4'' exampleWorld)) =
     [exampleStore[2 := (exampleStore ! 2)\<lparr>Status := ''closed''\<rparr>]]"
    by code_simp
  have g: "writes (snd (pushToGithub exampleWorld)) = [[]]" by code_simp
  have t: "writesValid exampleWorld (snd (closeIssue ''4'' exampleWorld)) \<and>
         writesValid exampleWorld (snd (pushToGithub exampleWorld)) \<and>
         (writesValid exampleWorld (snd (addIssue ''chore: tidy'' exampleWorld)) \<longleftrightarrow>
            ''chore: tidy'' = [] \<or>
            \<not> ((\<exists>i \<in> set exampleStore. sint (ID i) = 2 ^ 63 - 1) \<and>
               (\<exists>i \<in> set exampleStore. sint (ID i) = - (2 ^ 63))))"
    by (rule persisting_keeps_invariants [OF l i])
  have wa: "writesValid exampleWorld (snd (addIssue ''chore: tidy'' exampleWorld))"
    using t n by blast
  have wc: "writesValid exampleWorld (snd (closeIssue ''4'' exampleWorld))"
    using t by (rule conjunct1)
  have wp: "writesValid exampleWorld (snd (pushToGithub exampleWorld))"
    using t by blast
  show ?thesis
    by (intro conjI l i n' a wa c wc g wp)
qed

text \<open>
  On a store with the ids \<open>2^63 - 1\<close> and \<open>- 2^63\<close>, which satisfies the invariants,
  \<open>addIssue\<close> saves a second issue with the id \<open>- 2^63\<close>. The store with the single id
  \<open>2^63 - 1\<close> reaches that state by one addition, so a second addition saves a duplicate
  id.
\<close>

theorem persisting_keeps_invariants_counterexample:
  "loadIssues (exampleWorld\<lparr>dbFile := Stored wrapStore\<rparr>) = Inr wrapStore \<and>
   storeInvariant wrapStore \<and>
   writes (snd (addIssue ''next'' (exampleWorld\<lparr>dbFile := Stored wrapStore\<rparr>))) =
     [wrapStore @
      [\<lparr>ID = - 9223372036854775808, Title = ''next'', Status = ''open'', Labels = [],
        CreatedAt = 1700000300\<rparr>]] \<and>
   map ID
     (wrapStore @
      [\<lparr>ID = - 9223372036854775808, Title = ''next'', Status = ''open'', Labels = [],
        CreatedAt = 1700000300\<rparr>]) =
     [9223372036854775807, - 9223372036854775808, - 9223372036854775808] \<and>
   \<not> storeInvariant
     (wrapStore @
      [\<lparr>ID = - 9223372036854775808, Title = ''next'', Status = ''open'', Labels = [],
        CreatedAt = 1700000300\<rparr>]) \<and>
   \<not> writesValid (exampleWorld\<lparr>dbFile := Stored wrapStore\<rparr>)
       (snd (addIssue ''next'' (exampleWorld\<lparr>dbFile := Stored wrapStore\<rparr>))) \<and>
   storeInvariant [hd wrapStore] \<and>
   map (map ID)
     (writes (snd (addIssue ''b''
        (snd (addIssue ''a'' (exampleWorld\<lparr>dbFile := Stored [hd wrapStore]\<rparr>)))))) =
     [[9223372036854775807, - 9223372036854775808],
      [9223372036854775807, - 9223372036854775808, - 9223372036854775808]]"
  by code_simp

end
